theory Spec2Isabelle
  imports Main
begin

section \<open>Python strings\<close>

text \<open>
  A Python \<open>str\<close> is modelled as a \<open>string\<close> whose characters are the code points
  below 256 (Latin-1). On that range \<open>str.isspace\<close>, \<open>str.strip\<close> and \<open>str.split\<close>
  agree on twelve whitespace characters, and \<open>str.lower\<close> maps one character to one
  character.
\<close>

definition isspace :: "char \<Rightarrow> bool" where
  "isspace c =
     (let n = (of_char c :: nat)
      in (9 \<le> n \<and> n \<le> 13) \<or> (28 \<le> n \<and> n \<le> 32) \<or> n = 133 \<or> n = 160)"

definition lower_char :: "char \<Rightarrow> char" where
  "lower_char c =
     (let n = (of_char c :: nat)
      in if (65 \<le> n \<and> n \<le> 90) \<or> (192 \<le> n \<and> n \<le> 222 \<and> n \<noteq> 215)
         then char_of (n + 32) else c)"

definition lower :: "string \<Rightarrow> string" where
  "lower s = map lower_char s"

definition strip :: "string \<Rightarrow> string" where
  "strip s = rev (dropWhile isspace (rev (dropWhile isspace s)))"

text \<open>
  \<open>str.split()\<close> without arguments: the maximal runs of non-whitespace characters, in
  order. The first argument of \<open>split_from\<close> is the run being collected.
\<close>

fun split_from :: "string \<Rightarrow> string \<Rightarrow> string list" where
  "split_from cur [] = (if cur = [] then [] else [cur])"
| "split_from cur (c # cs) =
     (if isspace c then (if cur = [] then split_from [] cs else cur # split_from [] cs)
      else split_from (cur @ [c]) cs)"

definition split :: "string \<Rightarrow> string list" where
  "split s = split_from [] s"

section \<open>Exceptions and values\<close>

datatype pyexc =
    IndexError
  | AssertionError
  | KeyError
  | ValueError
  | SyntaxError
  | TypeError
  | MemoryError
  | RecursionError
  | OperationNotSupportedError
  | DatabaseError

text \<open>
  The values a parser can return. Objects of the libraries (\<open>decimal.Decimal\<close>,
  \<open>datetime.date\<close>, lists, sets, ...) are opaque: only their printed form is kept.
\<close>

datatype pyvalue =
    PyNone
  | PyInt int
  | PyBool bool
  | PyStr string
  | PyObject string

datatype literal_type = BOOLEAN | DATE | DATE_TIME | FLOAT | INTEGER | NULL | STRING

section \<open>The type tables\<close>

definition TYPE_MAP :: "string \<rightharpoonup> literal_type" where
  "TYPE_MAP = map_of
     [(''bool'', BOOLEAN),
      (''date'', DATE),
      (''date/time'', DATE_TIME),
      (''datetime'', DATE_TIME),
      (''double'', FLOAT),
      (''float'', FLOAT),
      (''int'', INTEGER),
      (''integer'', INTEGER),
      (''none'', NULL),
      (''null'', NULL),
      (''str'', STRING),
      (''string'', STRING)]"

section \<open>Parsing a field mapping line\<close>

text \<open>
  The four local variables of the scanning loop of \<open>_parse_field_mapping_line\<close>.
  \<open>field_name\<close> and \<open>value_template\<close> start as Python's \<open>None\<close>.
\<close>

record scan_state =
  field_type :: string
  field_name :: "string option"
  value_template :: "string option"
  in_brackets :: bool

definition scan_init :: scan_state where
  "scan_init = \<lparr>field_type = [], field_name = None, value_template = None, in_brackets = False\<rparr>"

text \<open>The body of \<open>for char in line\<close>, with the branches in the order of the source.\<close>

definition scan_char :: "scan_state \<Rightarrow> char \<Rightarrow> scan_state" where
  "scan_char st c =
     (case value_template st of
        Some t \<Rightarrow> st\<lparr>value_template := Some (t @ [c])\<rparr>
      | None \<Rightarrow>
          (case field_name st of
             Some n \<Rightarrow>
               if \<not> in_brackets st \<and> c = CHR '':'' then st\<lparr>value_template := Some []\<rparr>
               else if in_brackets st \<and> c = CHR '']'' then st\<lparr>in_brackets := False\<rparr>
               else if n = [] \<and> c = CHR ''['' then st\<lparr>in_brackets := True\<rparr>
               else st\<lparr>field_name := Some (n @ [c])\<rparr>
           | None \<Rightarrow>
               if isspace c then st\<lparr>field_name := Some []\<rparr>
               else st\<lparr>field_type := field_type st @ [c]\<rparr>))"

definition scan :: "scan_state \<Rightarrow> string \<Rightarrow> scan_state" where
  "scan st line = foldl scan_char st line"

text \<open>
  \<open>if x: x = x.strip()\<close>: \<open>None\<close> and the empty string are falsy and stay as they
  are.
\<close>

definition strip_if_truthy :: "string option \<Rightarrow> string option" where
  "strip_if_truthy x =
     (case x of None \<Rightarrow> None | Some s \<Rightarrow> if s = [] then Some [] else Some (strip s))"

definition truthy :: "string option \<Rightarrow> bool" where
  "truthy x = (case x of None \<Rightarrow> False | Some s \<Rightarrow> s \<noteq> [])"

text \<open>
  The line that the loop scans: the trimmed line, without the \<open>nullable\<close> prefix when
  the first whitespace-delimited token is that keyword. \<open>line.split()[0]\<close> raises
  \<open>IndexError\<close> when the trimmed line is empty.
\<close>

definition strip_nullable :: "string \<Rightarrow> pyexc + (bool \<times> string)" where
  "strip_nullable line0 =
     (let line = strip line0
      in case split line of
           [] \<Rightarrow> Inl IndexError
         | tok # _ \<Rightarrow>
             if lower tok = ''nullable'' then Inr (True, strip (drop 8 line))
             else Inr (False, line))"

text \<open>
  What follows the loop: the three results are trimmed, the two \<open>assert\<close> statements
  are checked (assertions enabled), and the tuple is returned.
\<close>

definition finish :: "bool \<Rightarrow> scan_state \<Rightarrow> pyexc + (bool \<times> string \<times> string \<times> string)" where
  "finish nullable st =
     (let ftype = lower (strip (field_type st));
          fname = strip_if_truthy (field_name st);
          tmpl = strip_if_truthy (value_template st)
      in if \<not> (ftype \<noteq> [] \<and> truthy fname \<and> truthy tmpl \<and> \<not> in_brackets st)
         then Inl AssertionError
         else if TYPE_MAP ftype = None then Inl AssertionError
         else Inr (nullable, ftype, the fname, the tmpl))"

definition parse_field_mapping_line ::
  "string \<Rightarrow> pyexc + (bool \<times> string \<times> string \<times> string)" where
  "parse_field_mapping_line line0 =
     (case strip_nullable line0 of
        Inl e \<Rightarrow> Inl e
      | Inr (nullable, line) \<Rightarrow> finish nullable (scan scan_init line))"

section \<open>The parsers of the type table\<close>

text \<open>
  Python's built-in \<open>int\<close> applied to a \<open>str\<close>, base 10: whitespace around the
  number is skipped (the six ASCII whitespace characters, and the two whitespace
  characters above 127), one sign may lead, and the digits may be separated by single
  underscores. Anything else raises \<open>ValueError\<close>. So does a number of more than 640
  digits that exceeds the interpreter's limit \<open>sys.get_int_max_str_digits()\<close>: 4300
  by default, 0 for no limit (and in interpreters that have none); the limit is a
  parameter \<open>maxd\<close>. It counts the digits, leading zeros included, and nothing else.
\<close>

definition int_space :: "char \<Rightarrow> bool" where
  "int_space c =
     (let n = (of_char c :: nat) in (9 \<le> n \<and> n \<le> 13) \<or> n = 32 \<or> n = 133 \<or> n = 160)"

definition isdigit :: "char \<Rightarrow> bool" where
  "isdigit c = (let n = (of_char c :: nat) in 48 \<le> n \<and> n \<le> 57)"

definition digit_value :: "char \<Rightarrow> nat" where
  "digit_value c = of_char c - 48"

definition over_limit :: "nat \<Rightarrow> nat \<Rightarrow> bool" where
  "over_limit maxd digits = (640 < digits \<and> 0 < maxd \<and> maxd < digits)"

text \<open>
  \<open>int_digits acc prev s\<close> reads the digits of \<open>s\<close> after the value \<open>acc\<close>;
  \<open>prev\<close> tells whether the character just read was a digit, which an underscore and
  the end of the string both require.
\<close>

fun int_digits :: "nat \<Rightarrow> bool \<Rightarrow> string \<Rightarrow> nat option" where
  "int_digits acc prev [] = (if prev then Some acc else None)"
| "int_digits acc prev (c # cs) =
     (if isdigit c then int_digits (acc * 10 + digit_value c) True cs
      else if c = CHR ''_'' \<and> prev then int_digits acc False cs
      else None)"

definition py_int :: "nat \<Rightarrow> string \<Rightarrow> pyexc + int" where
  "py_int maxd s =
     (let t = rev (dropWhile int_space (rev (dropWhile int_space s)));
          r = (case t of
                 [] \<Rightarrow> None
               | c # cs \<Rightarrow>
                   if c = CHR ''-'' then map_option (\<lambda>n. - int n) (int_digits 0 False cs)
                   else if c = CHR ''+'' then map_option int (int_digits 0 False cs)
                   else map_option int (int_digits 0 False t))
      in if over_limit maxd (length (filter isdigit t)) then Inl ValueError
         else case r of None \<Rightarrow> Inl ValueError | Some i \<Rightarrow> Inr i)"

text \<open>
  The strings that \<open>int\<close> accepts, said without the scanner: a first group of
  digits and further groups, each after one underscore; every group is a non-empty
  string of decimal digits, and the value is the base-10 value of the digits.
\<close>

definition decimal_value :: "string \<Rightarrow> nat" where
  "decimal_value s = foldl (\<lambda>a c. a * 10 + digit_value c) 0 s"

definition digit_group :: "string \<Rightarrow> bool" where
  "digit_group g = (g \<noteq> [] \<and> list_all isdigit g)"

definition underscore_groups :: "string \<Rightarrow> string list \<Rightarrow> string" where
  "underscore_groups g gs = g @ concat (map ((#) CHR ''_'') gs)"

text \<open>
  The callables that the module takes from elsewhere: \<open>str.format_map\<close>,
  \<open>ast.literal_eval\<close>, \<open>decimal.Decimal\<close>, the three parsers of the package's
  \<open>strings\<close> module, and the \<open>execute\<close> method of the connection (which returns
  nothing, or raises). Each is a parameter of the model; an exception it raises is
  the \<open>Inl\<close> result. The digit limit of the interpreter is a parameter too.
\<close>

datatype command_kind = Insert | Update

record command =
  cmd_table :: string
  cmd_kind :: command_kind
  cmd_set :: "(string \<times> pyvalue \<times> literal_type) list"

record externals =
  format_map :: "string \<Rightarrow> (string \<rightharpoonup> string) \<Rightarrow> pyexc + string"
  literal_eval :: "string \<Rightarrow> pyexc + pyvalue"
  Decimal :: "string \<Rightarrow> pyexc + pyvalue"
  parse_bool :: "string \<Rightarrow> pyexc + pyvalue"
  parse_date :: "string \<Rightarrow> pyexc + pyvalue"
  parse_datetime :: "string \<Rightarrow> pyexc + pyvalue"
  execute :: "command \<Rightarrow> pyexc option"
  int_max_str_digits :: nat

text \<open>
  \<open>_string_parser\<close>: the \<open>except\<close> clause catches \<open>ValueError\<close> and
  \<open>SyntaxError\<close>; any other exception of \<open>ast.literal_eval\<close> leaves the function.
\<close>

definition string_parser :: "externals \<Rightarrow> string \<Rightarrow> pyexc + pyvalue" where
  "string_parser ext s =
     (case literal_eval ext s of
        Inr (PyStr r) \<Rightarrow> Inr (PyStr r)
      | Inr _ \<Rightarrow> Inr (PyStr s)
      | Inl ValueError \<Rightarrow> Inr (PyStr s)
      | Inl SyntaxError \<Rightarrow> Inr (PyStr s)
      | Inl e \<Rightarrow> Inl e)"

definition null_parser :: "string \<Rightarrow> pyexc + pyvalue" where
  "null_parser s =
     (if lower s \<in> set ['''', ''null'', ''none'', ''nil''] then Inr PyNone
      else Inl AssertionError)"

definition TYPE_PARSER_MAP :: "externals \<Rightarrow> literal_type \<Rightarrow> string \<Rightarrow> pyexc + pyvalue" where
  "TYPE_PARSER_MAP ext t =
     (case t of
        DATE \<Rightarrow> parse_date ext
      | DATE_TIME \<Rightarrow> parse_datetime ext
      | FLOAT \<Rightarrow> Decimal ext
      | BOOLEAN \<Rightarrow> parse_bool ext
      | INTEGER \<Rightarrow> (\<lambda>s. map_sum id PyInt (py_int (int_max_str_digits ext) s))
      | NULL \<Rightarrow> null_parser
      | STRING \<Rightarrow> string_parser ext)"

section \<open>Sending a notification\<close>

text \<open>
  A notifier after \<open>__init__\<close>: the table, the field entries
  \<open>(nullable, field_type, field_name, value_template)\<close> and the command type. The
  connection is the \<open>execute\<close> of the externals.
\<close>

type_synonym field_entry = "bool \<times> string \<times> string \<times> string"

record sql_notifier =
  self_table :: string
  self_fields :: "field_entry list"
  self_command_type :: string

text \<open>
  The calls that \<open>__call__\<close> makes to the outside are recorded in the order they
  happen: the interpolation of a template, a parser of the type table applied to a
  string, and the connection's \<open>execute\<close>.
\<close>

datatype event =
    Formatted string
  | Parsed literal_type string
  | Executed command

text \<open>
  The command builder of \<open>sql_dialects\<close>: \<open>T[table].insert()\<close> or \<open>.update()\<close>
  starts a command, and each \<open>.set(name=V(value, sql_type))\<close> adds one assignment,
  kept here in the order of the calls.
\<close>

definition new_command :: "string \<Rightarrow> string \<Rightarrow> command" where
  "new_command tbl ctype =
     \<lparr>cmd_table = tbl, cmd_kind = (if ctype = ''INSERT'' then Insert else Update), cmd_set = []\<rparr>"

definition set_field :: "command \<Rightarrow> string \<Rightarrow> pyvalue \<times> literal_type \<Rightarrow> command" where
  "set_field cmd name v = cmd\<lparr>cmd_set := cmd_set cmd @ [(name, fst v, snd v)]\<rparr>"

text \<open>
  One turn of the loop over the fields, up to the value and its SQL type. A field
  type outside \<open>TYPE_MAP\<close> (which \<open>__init__\<close> refuses) would raise \<open>KeyError\<close>.
\<close>

definition field_value ::
  "externals \<Rightarrow> (string \<rightharpoonup> string) \<Rightarrow> field_entry \<Rightarrow> (pyexc + pyvalue \<times> literal_type) \<times> event list" where
  "field_value ext kwargs f =
     (case f of (nullable, ftype, fname, tmpl) \<Rightarrow>
        (case format_map ext tmpl kwargs of
           Inl e \<Rightarrow> (Inl e, [Formatted tmpl])
         | Inr value_str \<Rightarrow>
             if nullable \<and> lower value_str \<in> set ['''', ''none'', ''null'']
             then (Inr (PyNone, NULL), [Formatted tmpl])
             else (case TYPE_MAP ftype of
                     None \<Rightarrow> (Inl KeyError, [Formatted tmpl])
                   | Some sql_type \<Rightarrow>
                       (case TYPE_PARSER_MAP ext sql_type value_str of
                          Inl e \<Rightarrow> (Inl e, [Formatted tmpl, Parsed sql_type value_str])
                        | Inr v \<Rightarrow> (Inr (v, sql_type), [Formatted tmpl, Parsed sql_type value_str])))))"

fun set_fields ::
  "externals \<Rightarrow> (string \<rightharpoonup> string) \<Rightarrow> field_entry list \<Rightarrow> command \<Rightarrow> (pyexc + command) \<times> event list" where
  "set_fields ext kwargs [] cmd = (Inr cmd, [])"
| "set_fields ext kwargs (f # fs) cmd =
     (case field_value ext kwargs f of
        (Inl e, tr) \<Rightarrow> (Inl e, tr)
      | (Inr v, tr) \<Rightarrow>
          (case set_fields ext kwargs fs (set_field cmd (fst (snd (snd f))) v) of
             (r, tr') \<Rightarrow> (r, tr @ tr')))"

text \<open>
  \<open>__call__\<close>: the attachments are Python's \<open>None\<close> (the \<open>None\<close> of the option type)
  or some object; the keyword arguments are the context; the argument \<open>msg\<close>, which
  the source never reads, is left out. The result is the exception raised, if any,
  with the calls made to the outside.
\<close>

definition call ::
  "externals \<Rightarrow> sql_notifier \<Rightarrow> string option \<Rightarrow> (string \<rightharpoonup> string) \<Rightarrow> (pyexc + unit) \<times> event list" where
  "call ext self attachments kwargs =
     (case attachments of
        Some _ \<Rightarrow> (Inl OperationNotSupportedError, [])
      | None \<Rightarrow>
          (case set_fields ext kwargs (self_fields self)
                  (new_command (self_table self) (self_command_type self)) of
             (Inl e, tr) \<Rightarrow> (Inl e, tr)
           | (Inr cmd, tr) \<Rightarrow>
               (case execute ext cmd of
                  Some e \<Rightarrow> (Inl e, tr @ [Executed cmd])
                | None \<Rightarrow> (Inr (), tr @ [Executed cmd]))))"

definition executed :: "event list \<Rightarrow> command list" where
  "executed tr = concat (map (\<lambda>ev. case ev of Executed c \<Rightarrow> [c] | _ \<Rightarrow> []) tr)"

definition parsed :: "event list \<Rightarrow> (literal_type \<times> string) list" where
  "parsed tr = concat (map (\<lambda>ev. case ev of Parsed t s \<Rightarrow> [(t, s)] | _ \<Rightarrow> []) tr)"

section \<open>An environment for the examples\<close>

text \<open>
  The theorems below hold for every choice of the external callables. The examples
  evaluate them with this one: \<open>str.format_map\<close> on templates made of plain text and
  \<open>{name}\<close> fields (a missing name raises \<open>KeyError\<close>, an unbalanced brace
  \<open>ValueError\<close>), \<open>ast.literal_eval\<close> on three inputs (a set display holding a list
  raises \<open>TypeError\<close>: a list is unhashable), a connection that accepts every
  command, and the default digit limit. The other parsers are not reached by the
  examples.
\<close>

fun plain_fields :: "(string \<rightharpoonup> string) \<Rightarrow> string option \<Rightarrow> string \<Rightarrow> pyexc + string" where
  "plain_fields kw None [] = Inr []"
| "plain_fields kw (Some n) [] = Inl ValueError"
| "plain_fields kw None (c # cs) =
     (if c = CHR ''{'' then plain_fields kw (Some []) cs
      else if c = CHR ''}'' then Inl ValueError
      else map_sum id ((#) c) (plain_fields kw None cs))"
| "plain_fields kw (Some n) (c # cs) =
     (if c = CHR ''}''
      then (case kw n of
              None \<Rightarrow> Inl KeyError
            | Some v \<Rightarrow> map_sum id ((@) v) (plain_fields kw None cs))
      else plain_fields kw (Some (n @ [c])) cs)"

definition example_literal_eval :: "string \<Rightarrow> pyexc + pyvalue" where
  "example_literal_eval s =
     (if s = ''{[]}'' then Inl TypeError
      else if s = [CHR 0x27, CHR ''a'', CHR ''b'', CHR ''c'', CHR 0x27] then Inr (PyStr ''abc'')
      else if s = ''123'' then Inr (PyInt 123)
      else Inl ValueError)"

definition example_ext :: externals where
  "example_ext =
     \<lparr>format_map = (\<lambda>tmpl kw. plain_fields kw None tmpl),
      literal_eval = example_literal_eval,
      Decimal = (\<lambda>s. Inl ValueError),
      parse_bool = (\<lambda>s. Inl ValueError),
      parse_date = (\<lambda>s. Inl ValueError),
      parse_datetime = (\<lambda>s. Inl ValueError),
      execute = (\<lambda>c. None),
      int_max_str_digits = 4300\<rparr>"

definition example_notifier :: sql_notifier where
  "example_notifier =
     \<lparr>self_table = ''Events'',
      self_fields =
        [(False, ''string'', ''Name'', ''{name}''), (True, ''integer'', ''Count'', ''{count}'')],
      self_command_type = ''INSERT''\<rparr>"

section \<open>The grammar of the specification\<close>

text \<open>
  The mapping line as the specification describes it (section 4.2, points 1 to 5):
  an optional keyword \<open>nullable\<close> in any letter case followed by whitespace; a token
  without whitespace that is, in lower case, a known type name; whitespace; the name
  region, either a bare token without whitespace, brackets or colon, or a bracketed
  region whose contents hold no closing bracket; the colon; and the template, which
  is what follows the colon, trimmed, and is not empty. These definitions follow the
  specification, not the scanner, and are compared with it below.
\<close>

datatype name_region = Bare string | Bracketed string

fun region_text :: "name_region \<Rightarrow> string" where
  "region_text (Bare n) = n"
| "region_text (Bracketed n) = ''['' @ n @ '']''"

fun region_name :: "name_region \<Rightarrow> string" where
  "region_name (Bare n) = n"
| "region_name (Bracketed n) = n"

definition spec_mapping_line ::
  "string \<Rightarrow> string \<Rightarrow> string \<Rightarrow> string \<Rightarrow> name_region \<Rightarrow> string \<Rightarrow> string \<Rightarrow> string" where
  "spec_mapping_line kw sp1 ty sp2 region sp3 tmpl =
     kw @ sp1 @ ty @ sp2 @ region_text region @ '':'' @ sp3 @ tmpl"

definition spec_well_formed ::
  "string \<Rightarrow> string \<Rightarrow> string \<Rightarrow> string \<Rightarrow> name_region \<Rightarrow> string \<Rightarrow> string \<Rightarrow> bool" where
  "spec_well_formed kw sp1 ty sp2 region sp3 tmpl =
     (((kw = [] \<and> sp1 = []) \<or> (lower kw = ''nullable'' \<and> sp1 \<noteq> [] \<and> list_all isspace sp1))
      \<and> list_all (\<lambda>c. \<not> isspace c) ty \<and> TYPE_MAP (lower ty) \<noteq> None
      \<and> sp2 \<noteq> [] \<and> list_all isspace sp2
      \<and> (case region of
            Bare n \<Rightarrow>
              n \<noteq> [] \<and> list_all (\<lambda>c. \<not> isspace c \<and> c \<noteq> CHR ''['' \<and> c \<noteq> CHR '']'' \<and> c \<noteq> CHR '':'') n
          | Bracketed n \<Rightarrow> n \<noteq> [] \<and> list_all (\<lambda>c. c \<noteq> CHR '']'') n)
      \<and> list_all isspace sp3
      \<and> tmpl \<noteq> [] \<and> \<not> isspace (hd tmpl) \<and> \<not> isspace (last tmpl))"

text \<open>
  What the scanner needs beyond the grammar for a bracketed name: the opening bracket
  follows the type after exactly one whitespace character, and the contents neither
  begin with an opening bracket nor begin or end with whitespace.
\<close>

definition bracket_placed :: "string \<Rightarrow> name_region \<Rightarrow> bool" where
  "bracket_placed sp2 region =
     (case region of
        Bare n \<Rightarrow> True
      | Bracketed n \<Rightarrow>
          length sp2 = 1 \<and> hd n \<noteq> CHR ''['' \<and> \<not> isspace (hd n) \<and> \<not> isspace (last n))"

section \<open>The name region of an accepted line\<close>

text \<open>
  The name region is the text between the first whitespace character after the type
  and the colon that ends the name. Two shapes of it are described here, with the
  name that each gives.

  A bare region holds no colon and, once trimmed, does not begin with an opening
  bracket; the name is the trimmed region.

  A bracketed region is an opening bracket, the contents, a closing bracket and a
  tail: the contents are not empty, do not begin with an opening bracket and hold no
  closing bracket (they may hold whitespace and colons); the tail holds no colon; the
  name is the contents followed by the tail, trimmed.
\<close>

definition bare_name :: "string \<Rightarrow> string \<Rightarrow> bool" where
  "bare_name region name =
     (CHR '':'' \<notin> set region \<and> take 1 (strip region) \<noteq> ''['' \<and> name = strip region)"

definition bracketed_name :: "string \<Rightarrow> string \<Rightarrow> string \<Rightarrow> bool" where
  "bracketed_name content tail name =
     (content \<noteq> [] \<and> take 1 content \<noteq> ''['' \<and> CHR '']'' \<notin> set content
      \<and> CHR '':'' \<notin> set tail \<and> name = strip (content @ tail))"

text \<open>
  The openings of the text after the type and its whitespace character on which the
  scanner's test for an opening bracket (\<open>not field_name and char == '['\<close>) departs
  from both shapes: two opening brackets, an empty pair of brackets, and whitespace
  before an opening bracket.
\<close>

definition irregular_opening :: "string \<Rightarrow> bool" where
  "irregular_opening rest =
     (take 2 rest = ''[['' \<or> take 2 rest = ''[]''
      \<or> (take 1 rest \<noteq> ''['' \<and> take 1 (dropWhile isspace rest) = ''[''))"

section \<open>Trimming\<close>

text \<open>
  Dropping the characters that satisfy \<open>P\<close> from both ends of a string whose middle
  part begins and ends with a character that does not.
\<close>

lemma trim_both:
  assumes a: "\<forall>c\<in>set a. P c" and b: "\<forall>c\<in>set b. P c"
    and m: "m \<noteq> []" and h: "\<not> P (hd m)" and l: "\<not> P (last m)"
  shows "rev (dropWhile P (rev (dropWhile P (a @ m @ b)))) = m"
proof -
  from m h have 1: "dropWhile P (m @ b) = m @ b" by (cases m) simp_all
  from a have "dropWhile P (a @ m @ b) = dropWhile P (m @ b)"
    by (simp add: dropWhile_append2)
  with 1 have 2: "dropWhile P (a @ m @ b) = m @ b" by simp
  from m l have 3: "dropWhile P (rev m) = rev m"
    by (cases m rule: rev_cases) simp_all
  have "dropWhile P (rev b @ rev m) = dropWhile P (rev m)"
    by (rule dropWhile_append2) (use b in simp)
  with 2 3 show ?thesis by simp
qed

lemma trim_kept:
  assumes "c \<in> set s" and "\<not> P c"
  shows "c \<in> set (rev (dropWhile P (rev (dropWhile P s))))"
proof -
  have k: "c \<in> set (dropWhile P xs)" if "c \<in> set xs" for xs
    using that assms(2) by (induction xs) auto
  from assms(1) have "c \<in> set (rev (dropWhile P s))" by (simp add: k)
  then have "c \<in> set (dropWhile P (rev (dropWhile P s)))" by (rule k)
  then show ?thesis by simp
qed

lemma strip_trimmed:
  "(\<forall>c\<in>set a. isspace c) \<Longrightarrow> (\<forall>c\<in>set b. isspace c) \<Longrightarrow> m \<noteq> []
   \<Longrightarrow> \<not> isspace (hd m) \<Longrightarrow> \<not> isspace (last m) \<Longrightarrow> strip (a @ m @ b) = m"
  unfolding strip_def by (rule trim_both)

lemma strip_blank: "\<forall>c\<in>set s. isspace c \<Longrightarrow> strip s = []"
  by (auto simp: strip_def dest: set_dropWhileD)

lemma strip_plain: "s \<noteq> [] \<Longrightarrow> \<forall>c\<in>set s. \<not> isspace c \<Longrightarrow> strip s = s"
  using strip_trimmed [of "[]" "[]" s] by simp

lemma strip_lead: "\<forall>c\<in>set a. isspace c \<Longrightarrow> m \<noteq> [] \<Longrightarrow> \<not> isspace (hd m)
   \<Longrightarrow> \<not> isspace (last m) \<Longrightarrow> strip (a @ m) = m"
  using strip_trimmed [of a "[]" m] by simp

section \<open>The loop over the fields\<close>

lemma field_value_no_exec: "executed (snd (field_value ext kw f)) = []"
  by (cases f) (auto simp: field_value_def executed_def split: sum.splits option.splits)

lemma set_fields_fail:
  "f \<in> set fs \<Longrightarrow> fst (field_value ext kw f) = Inl e
   \<Longrightarrow> \<exists>e'. fst (set_fields ext kw fs cmd) = Inl e'"
proof (induction fs arbitrary: cmd)
  case Nil
  then show ?case by simp
next
  case (Cons g gs)
  show ?case
  proof (cases "fst (field_value ext kw g)")
    case (Inl a)
    then show ?thesis by (cases "field_value ext kw g") simp
  next
    case (Inr v)
    with Cons.prems have "f \<in> set gs" by auto
    from Cons.IH [OF this Cons.prems(2)] obtain e' where
      "fst (set_fields ext kw gs (set_field cmd (fst (snd (snd g))) v)) = Inl e'" by blast
    with Inr show ?thesis
      by (cases "field_value ext kw g") (auto split: prod.splits)
  qed
qed

lemma set_fields_no_exec: "executed (snd (set_fields ext kw fs cmd)) = []"
proof (induction fs arbitrary: cmd)
  case Nil
  then show ?case by (simp add: executed_def)
next
  case (Cons g gs)
  have a: "executed (snd (field_value ext kw g)) = []" by (rule field_value_no_exec)
  show ?case
  proof (cases "field_value ext kw g")
    case (Pair r tr)
    with a have tr: "executed tr = []" by simp
    show ?thesis
    proof (cases r)
      case (Inl e)
      with Pair tr show ?thesis by simp
    next
      case (Inr v)
      have "executed (snd (set_fields ext kw gs (set_field cmd (fst (snd (snd g))) v))) = []"
        by (rule Cons.IH)
      with Pair Inr tr show ?thesis
        by (auto simp: executed_def split: prod.splits)
    qed
  qed
qed

lemma call_fail_no_exec:
  assumes "fst (set_fields ext kw (self_fields self)
             (new_command (self_table self) (self_command_type self))) = Inl e"
  shows "fst (call ext self None kw) = Inl e \<and> executed (snd (call ext self None kw)) = []"
proof -
  let ?r = "set_fields ext kw (self_fields self)
              (new_command (self_table self) (self_command_type self))"
  have "executed (snd ?r) = []" by (rule set_fields_no_exec)
  with assms show ?thesis
    by (cases ?r) (simp add: call_def)
qed

lemma call_field_fails:
  assumes "f \<in> set (self_fields self)" and "fst (field_value ext kw f) = Inl e"
  shows "(\<exists>e'. fst (call ext self None kw) = Inl e') \<and> executed (snd (call ext self None kw)) = []"
proof -
  from set_fields_fail [OF assms] obtain e' where
    "fst (set_fields ext kw (self_fields self)
       (new_command (self_table self) (self_command_type self))) = Inl e'" by blast
  from call_fail_no_exec [OF this] show ?thesis by blast
qed

text \<open>The assignments of the command that reaches the connection, field by field.\<close>

lemma set_fields_assignments:
  "set_fields ext kw fs cmd = (Inr cmd', tr)
   \<Longrightarrow> \<exists>vs. cmd_set cmd' = cmd_set cmd @ vs
        \<and> list_all2 (\<lambda>f a. \<exists>v. fst (field_value ext kw f) = Inr v
                              \<and> a = (fst (snd (snd f)), fst v, snd v)) fs vs"
proof (induction fs arbitrary: cmd tr)
  case Nil
  then show ?case by simp
next
  case (Cons g gs)
  obtain r t where fv: "field_value ext kw g = (r, t)" by (cases "field_value ext kw g")
  show ?case
  proof (cases r)
    case (Inl e)
    with fv Cons.prems show ?thesis by simp
  next
    case (Inr v)
    let ?cmd = "set_field cmd (fst (snd (snd g))) v"
    obtain r' t' where sf: "set_fields ext kw gs ?cmd = (r', t')"
      by (cases "set_fields ext kw gs ?cmd")
    with fv Inr Cons.prems have "r' = Inr cmd'" by simp
    with sf have "set_fields ext kw gs ?cmd = (Inr cmd', t')" by simp
    from Cons.IH [OF this] obtain vs where
      vs: "cmd_set cmd' = cmd_set ?cmd @ vs"
      and all: "list_all2 (\<lambda>f a. \<exists>v. fst (field_value ext kw f) = Inr v
                              \<and> a = (fst (snd (snd f)), fst v, snd v)) gs vs" by blast
    from vs have "cmd_set cmd' = cmd_set cmd @ ((fst (snd (snd g)), fst v, snd v) # vs)"
      by (simp add: set_field_def)
    moreover from fv Inr have "fst (field_value ext kw g) = Inr v" by simp
    ultimately show ?thesis using all by blast
  qed
qed

lemma set_fields_nth:
  assumes "set_fields ext kw (pre @ f # post) cmd = (Inr cmd', tr)"
  shows "\<exists>v. fst (field_value ext kw f) = Inr v
           \<and> cmd_set cmd' ! (length (cmd_set cmd) + length pre) = (fst (snd (snd f)), fst v, snd v)"
proof -
  from set_fields_assignments [OF assms] obtain vs where
    vs: "cmd_set cmd' = cmd_set cmd @ vs"
    and all: "list_all2 (\<lambda>f a. \<exists>v. fst (field_value ext kw f) = Inr v
                              \<and> a = (fst (snd (snd f)), fst v, snd v)) (pre @ f # post) vs" by blast
  have len: "length pre < length (pre @ f # post)" by simp
  from list_all2_nthD [OF all len]
  have "\<exists>v. fst (field_value ext kw f) = Inr v \<and> vs ! length pre = (fst (snd (snd f)), fst v, snd v)"
    by simp
  with vs show ?thesis by (simp add: nth_append)
qed

lemma call_executed:
  assumes "Executed cmd \<in> set (snd (call ext self None kw))"
  shows "\<exists>tr. set_fields ext kw (self_fields self)
           (new_command (self_table self) (self_command_type self)) = (Inr cmd, tr)"
proof -
  let ?r = "set_fields ext kw (self_fields self)
              (new_command (self_table self) (self_command_type self))"
  obtain r tr where sf: "?r = (r, tr)" by (cases ?r)
  have ne: "executed (snd ?r) = []" by (rule set_fields_no_exec)
  have notin: "Executed c \<notin> set tr" for c
  proof
    assume "Executed c \<in> set tr"
    then have "c \<in> set (executed tr)" by (force simp: executed_def)
    with ne sf show False by simp
  qed
  show ?thesis
  proof (cases r)
    case (Inl e)
    with sf assms notin show ?thesis by (simp add: call_def)
  next
    case (Inr c)
    with sf assms notin have "cmd = c"
      by (auto simp: call_def split: option.splits)
    with sf Inr show ?thesis by simp
  qed
qed


lemma field_value_fails:
  assumes "format_map ext tmpl kw = Inl e
         \<or> (\<exists>s t. format_map ext tmpl kw = Inr s
                \<and> \<not> (nullable \<and> lower s \<in> set ['''', ''none'', ''null''])
                \<and> TYPE_MAP ftype = Some t \<and> TYPE_PARSER_MAP ext t s = Inl e)"
  shows "fst (field_value ext kw (nullable, ftype, fname, tmpl)) = Inl e"
  using assms by (auto simp: field_value_def)

section \<open>The claims about sending\<close>

text \<open>
  C1. If the interpolation of a field's template fails (a missing key is
  \<open>KeyError\<close>), or the parser of a field's type fails on the interpolated string,
  the call raises and the connection's \<open>execute\<close> is not called.
\<close>

theorem failed_field_executes_nothing:
  assumes "(nullable, ftype, fname, tmpl) \<in> set (self_fields self)"
    and "format_map ext tmpl kwargs = Inl e
         \<or> (\<exists>s t. format_map ext tmpl kwargs = Inr s
                \<and> \<not> (nullable \<and> lower s \<in> set ['''', ''none'', ''null''])
                \<and> TYPE_MAP ftype = Some t \<and> TYPE_PARSER_MAP ext t s = Inl e)"
  shows "(\<exists>e'. fst (call ext self None kwargs) = Inl e')
       \<and> executed (snd (call ext self None kwargs)) = []"
  using call_field_fails [OF assms(1) field_value_fails [OF assms(2)]] .

theorem failed_field_executes_nothing_witness:
  "(True, ''integer'', ''Count'', ''{count}'') \<in> set (self_fields example_notifier)
   \<and> format_map example_ext ''{count}'' [''name'' \<mapsto> ''X''] = Inl KeyError
   \<and> (\<exists>e'. fst (call example_ext example_notifier None [''name'' \<mapsto> ''X'']) = Inl e')
   \<and> executed (snd (call example_ext example_notifier None [''name'' \<mapsto> ''X''])) = []"
proof -
  have h1: "(True, ''integer'', ''Count'', ''{count}'') \<in> set (self_fields example_notifier)"
    by (simp add: example_notifier_def)
  have h2: "format_map example_ext ''{count}'' [''name'' \<mapsto> ''X''] = Inl KeyError"
    by (simp add: example_ext_def)
  from failed_field_executes_nothing [OF h1 disjI1 [OF h2]] h1 h2 show ?thesis by blast
qed

text \<open>
  C2. For a nullable field of any declared type whose interpolated string is, in
  lower case, the empty string, \<open>none\<close> or \<open>null\<close>: the turn of the loop yields the
  value \<open>None\<close> of SQL type \<open>NULL\<close> and calls no parser, and the command that reaches
  the connection carries that assignment at the field's position.
\<close>

theorem nullable_null_override:
  assumes "self_fields self = pre @ (True, ftype, fname, tmpl) # post"
    and "format_map ext tmpl kwargs = Inr s"
    and "lower s \<in> set ['''', ''none'', ''null'']"
  shows "field_value ext kwargs (True, ftype, fname, tmpl) = (Inr (PyNone, NULL), [Formatted tmpl])
       \<and> parsed (snd (field_value ext kwargs (True, ftype, fname, tmpl))) = []
       \<and> (\<forall>cmd. Executed cmd \<in> set (snd (call ext self None kwargs))
            \<longrightarrow> cmd_set cmd ! length pre = (fname, PyNone, NULL))"
proof -
  from assms(2,3)
  have fv: "field_value ext kwargs (True, ftype, fname, tmpl) = (Inr (PyNone, NULL), [Formatted tmpl])"
    by (simp add: field_value_def)
  have "cmd_set cmd ! length pre = (fname, PyNone, NULL)"
    if ex: "Executed cmd \<in> set (snd (call ext self None kwargs))" for cmd
  proof -
    from call_executed [OF ex] assms(1) obtain tr where
      "set_fields ext kwargs (pre @ (True, ftype, fname, tmpl) # post)
         (new_command (self_table self) (self_command_type self)) = (Inr cmd, tr)" by auto
    from set_fields_nth [OF this] fv show ?thesis by (simp add: new_command_def)
  qed
  with fv show ?thesis by (simp add: parsed_def)
qed

theorem nullable_null_override_witness:
  "self_fields example_notifier
     = [(False, ''string'', ''Name'', ''{name}'')] @ (True, ''integer'', ''Count'', ''{count}'') # []
   \<and> format_map example_ext ''{count}'' [''name'' \<mapsto> ''X'', ''count'' \<mapsto> ''None''] = Inr ''None''
   \<and> lower ''None'' \<in> set ['''', ''none'', ''null'']
   \<and> Executed \<lparr>cmd_table = ''Events'', cmd_kind = Insert,
                cmd_set = [(''Name'', PyStr ''X'', STRING), (''Count'', PyNone, NULL)]\<rparr>
       \<in> set (snd (call example_ext example_notifier None [''name'' \<mapsto> ''X'', ''count'' \<mapsto> ''None'']))
   \<and> field_value example_ext [''name'' \<mapsto> ''X'', ''count'' \<mapsto> ''None'']
        (True, ''integer'', ''Count'', ''{count}'') = (Inr (PyNone, NULL), [Formatted ''{count}''])
   \<and> cmd_set \<lparr>cmd_table = ''Events'', cmd_kind = Insert,
                cmd_set = [(''Name'', PyStr ''X'', STRING), (''Count'', PyNone, NULL)]\<rparr>
        ! length [(False, ''string'', ''Name'', ''{name}'')] = (''Count'', PyNone, NULL)"
proof -
  let ?kw = "[''name'' \<mapsto> ''X'', ''count'' \<mapsto> ''None'']"
  have h1: "self_fields example_notifier
     = [(False, ''string'', ''Name'', ''{name}'')] @ (True, ''integer'', ''Count'', ''{count}'') # []"
    by (simp add: example_notifier_def)
  have h2: "format_map example_ext ''{count}'' ?kw = Inr ''None''"
    by (simp add: example_ext_def)
  have h3: "lower ''None'' \<in> set ['''', ''none'', ''null'']"
    by code_simp
  have h4: "Executed \<lparr>cmd_table = ''Events'', cmd_kind = Insert,
                cmd_set = [(''Name'', PyStr ''X'', STRING), (''Count'', PyNone, NULL)]\<rparr>
       \<in> set (snd (call example_ext example_notifier None ?kw))"
    by code_simp
  from nullable_null_override [OF h1 h2 h3] h1 h2 h3 h4 show ?thesis by blast
qed

text \<open>
  C7. With attachments supplied the call raises \<open>OperationNotSupportedError\<close> at
  once: nothing is interpolated, no parser runs and nothing reaches the connection.
\<close>

theorem call_attachments_unsupported:
  "call ext self (Some a) kwargs = (Inl OperationNotSupportedError, [])"
  by (simp add: call_def)

section \<open>The STRING parser\<close>

text \<open>
  Where \<open>ast.literal_eval\<close> returns a string, that string is the result; where it
  returns another value, or raises one of the two exceptions that are caught, the
  input is returned as it is.
\<close>

lemma string_parser_unescaped:
  "literal_eval ext s = Inr (PyStr r) \<Longrightarrow> string_parser ext s = Inr (PyStr r)"
  by (simp add: string_parser_def)

lemma string_parser_other_literal:
  "literal_eval ext s = Inr v \<Longrightarrow> \<forall>r. v \<noteq> PyStr r \<Longrightarrow> string_parser ext s = Inr (PyStr s)"
  by (cases v) (simp_all add: string_parser_def)

lemma string_parser_caught:
  "literal_eval ext s = Inl ValueError \<or> literal_eval ext s = Inl SyntaxError
   \<Longrightarrow> string_parser ext s = Inr (PyStr s)"
  by (auto simp: string_parser_def)

lemma string_parser_examples:
  "string_parser example_ext ''123'' = Inr (PyStr ''123'')"
  "string_parser example_ext ''abc'' = Inr (PyStr ''abc'')"
  "string_parser example_ext [CHR 0x27, CHR ''a'', CHR ''b'', CHR ''c'', CHR 0x27] = Inr (PyStr ''abc'')"
  by (simp_all add: string_parser_def example_ext_def example_literal_eval_def)

text \<open>
  C9. \<open>_string_parser\<close> lets every exception of \<open>ast.literal_eval\<close> other than
  \<open>ValueError\<close> and \<open>SyntaxError\<close> through: on \<open>{[]}\<close> the \<open>TypeError\<close> of the
  unhashable list leaves the STRING parser.
\<close>

theorem string_parser_raises:
  "literal_eval ext s = Inl e \<Longrightarrow> e \<noteq> ValueError \<Longrightarrow> e \<noteq> SyntaxError
   \<Longrightarrow> TYPE_PARSER_MAP ext STRING s = Inl e"
  by (cases e) (simp_all add: TYPE_PARSER_MAP_def string_parser_def)

theorem string_parser_raises_witness:
  "literal_eval example_ext ''{[]}'' = Inl TypeError \<and> TypeError \<noteq> ValueError
   \<and> TypeError \<noteq> SyntaxError \<and> TYPE_PARSER_MAP example_ext STRING ''{[]}'' = Inl TypeError"
proof -
  have h: "literal_eval example_ext ''{[]}'' = Inl TypeError"
    by (simp add: example_ext_def example_literal_eval_def)
  from string_parser_raises [OF h] h show ?thesis by simp
qed


section \<open>The INTEGER parser\<close>

lemma isdigit_not_int_space: "isdigit c \<Longrightarrow> \<not> int_space c"
  by (auto simp: isdigit_def int_space_def Let_def)

lemma isdigit_not_sign: "isdigit c \<Longrightarrow> c \<noteq> CHR ''-'' \<and> c \<noteq> CHR ''+'' \<and> c \<noteq> CHR ''_''"
  by (auto simp: isdigit_def)

lemma sign_chars: "\<not> isdigit CHR ''-''" "\<not> isdigit CHR ''+''" "\<not> isdigit CHR ''_''"
  "\<not> int_space CHR ''-''" "\<not> int_space CHR ''+''"
  by (simp_all add: isdigit_def int_space_def)

lemma int_digits_bad:
  "c \<in> set s \<Longrightarrow> \<not> isdigit c \<Longrightarrow> c \<noteq> CHR ''_'' \<Longrightarrow> int_digits acc prev s = None"
  by (induction s arbitrary: acc prev) auto

subsection \<open>Groups of digits\<close>

lemma groups_Nil: "underscore_groups g [] = g"
  by (simp add: underscore_groups_def)

lemma groups_Cons: "underscore_groups g (h # hs) = g @ CHR ''_'' # underscore_groups h hs"
  by (simp add: underscore_groups_def)

lemma groups_digit: "underscore_groups (c # g) gs = c # underscore_groups g gs"
  by (simp add: underscore_groups_def)

lemma int_digits_prefix:
  "list_all isdigit g \<Longrightarrow> prev \<or> g \<noteq> []
   \<Longrightarrow> int_digits acc prev (g @ r)
       = int_digits (foldl (\<lambda>a c. a * 10 + digit_value c) acc g) True r"
proof (induction g arbitrary: acc prev)
  case Nil
  then show ?case by simp
next
  case (Cons c g)
  then have "int_digits (acc * 10 + digit_value c) True (g @ r)
       = int_digits (foldl (\<lambda>a c. a * 10 + digit_value c) (acc * 10 + digit_value c) g) True r"
    by (intro Cons.IH) simp_all
  with Cons.prems show ?case by simp
qed

text \<open>The scanner accepts the groups and computes their value.\<close>

lemma int_digits_groups:
  "list_all isdigit g \<Longrightarrow> list_all digit_group gs \<Longrightarrow> prev \<or> g \<noteq> []
   \<Longrightarrow> int_digits acc prev (underscore_groups g gs)
       = Some (foldl (\<lambda>a c. a * 10 + digit_value c) acc (g @ concat gs))"
proof (induction gs arbitrary: acc prev g)
  case Nil
  from int_digits_prefix [OF Nil.prems(1) Nil.prems(3), of acc "[]"]
  show ?case by (simp add: groups_Nil)
next
  case (Cons h hs)
  let ?f = "\<lambda>a c. a * 10 + digit_value c"
  from Cons.prems(2) have dh: "digit_group h" and hs: "list_all digit_group hs" by simp_all
  from dh have h: "list_all isdigit h" "h \<noteq> []" by (simp_all add: digit_group_def)
  from int_digits_prefix [OF Cons.prems(1) Cons.prems(3)]
  have "int_digits acc prev (g @ CHR ''_'' # underscore_groups h hs)
        = int_digits (foldl ?f acc g) True (CHR ''_'' # underscore_groups h hs)" .
  also have "\<dots> = int_digits (foldl ?f acc g) False (underscore_groups h hs)"
    by (simp add: sign_chars)
  also from h hs have "\<dots> = Some (foldl ?f (foldl ?f acc g) (h @ concat hs))"
    by (intro Cons.IH) simp_all
  finally show ?case by (simp add: groups_Cons)
qed

text \<open>Whatever the scanner accepts is made of such groups.\<close>

lemma int_digits_shape:
  "int_digits acc prev s = Some n
   \<Longrightarrow> \<exists>g gs. s = underscore_groups g gs \<and> list_all isdigit g \<and> list_all digit_group gs
          \<and> (prev \<or> g \<noteq> []) \<and> n = foldl (\<lambda>a c. a * 10 + digit_value c) acc (g @ concat gs)"
proof (induction s arbitrary: acc prev)
  case Nil
  then have "prev" and "n = acc" by (simp_all split: if_splits)
  then have "[] = underscore_groups [] [] \<and> list_all isdigit [] \<and> list_all digit_group []
          \<and> (prev \<or> [] \<noteq> ([]::string))
          \<and> n = foldl (\<lambda>a c. a * 10 + digit_value c) acc ([] @ concat [])"
    by (simp add: groups_Nil)
  then show ?case by blast
next
  case (Cons c cs)
  let ?f = "\<lambda>a c. a * 10 + digit_value c"
  show ?case
  proof (cases "isdigit c")
    case True
    with Cons.prems have "int_digits (acc * 10 + digit_value c) True cs = Some n" by simp
    from Cons.IH [OF this] obtain g gs where
      a: "cs = underscore_groups g gs" "list_all isdigit g" "list_all digit_group gs"
         "n = foldl ?f (acc * 10 + digit_value c) (g @ concat gs)" by blast
    from a True have "c # cs = underscore_groups (c # g) gs \<and> list_all isdigit (c # g)
          \<and> list_all digit_group gs \<and> (prev \<or> c # g \<noteq> [])
          \<and> n = foldl ?f acc ((c # g) @ concat gs)"
      by (simp add: groups_digit)
    then show ?thesis by blast
  next
    case False
    with Cons.prems have u: "c = CHR ''_''" and p: "prev"
      and r: "int_digits acc False cs = Some n"
      by (simp_all split: if_splits)
    from Cons.IH [OF r] obtain g gs where
      a: "cs = underscore_groups g gs" "list_all isdigit g" "list_all digit_group gs"
         "g \<noteq> []" "n = foldl ?f acc (g @ concat gs)" by blast
    from a u p have "c # cs = underscore_groups [] (g # gs) \<and> list_all isdigit []
          \<and> list_all digit_group (g # gs) \<and> (prev \<or> [] \<noteq> ([]::string))
          \<and> n = foldl ?f acc ([] @ concat (g # gs))"
      by (simp add: groups_Cons digit_group_def)
    then show ?thesis by blast
  qed
qed

lemma groups_filter:
  "list_all isdigit g \<Longrightarrow> list_all digit_group gs
   \<Longrightarrow> filter isdigit (underscore_groups g gs) = g @ concat gs"
proof (induction gs arbitrary: g)
  case Nil
  then show ?case by (simp add: groups_Nil list_all_iff)
next
  case (Cons h hs)
  from Cons.prems(2) have dh: "digit_group h" and hs: "list_all digit_group hs" by simp_all
  from dh have "list_all isdigit h" by (simp add: digit_group_def)
  then have "filter isdigit (underscore_groups h hs) = h @ concat hs"
    using hs by (rule Cons.IH)
  with Cons.prems(1) show ?case by (simp add: groups_Cons sign_chars list_all_iff)
qed

lemma groups_ends:
  assumes "g \<noteq> []" and "list_all isdigit g" and "list_all digit_group gs"
  shows "underscore_groups g gs \<noteq> [] \<and> isdigit (hd (underscore_groups g gs))
       \<and> isdigit (last (underscore_groups g gs))"
proof -
  from assms(1,2) have h: "underscore_groups g gs \<noteq> [] \<and> isdigit (hd (underscore_groups g gs))"
    by (cases g) (simp_all add: underscore_groups_def)
  have "isdigit (last (underscore_groups g gs))"
  proof (cases gs rule: rev_cases)
    case Nil
    with assms(1,2) show ?thesis by (simp add: groups_Nil list_all_iff)
  next
    case (snoc hs h)
    with assms(3) have "digit_group h" by simp
    then have "h \<noteq> []" "list_all isdigit h" by (simp_all add: digit_group_def)
    then have "isdigit (last h)" by (simp add: list_all_iff)
    moreover from snoc \<open>h \<noteq> []\<close> have "last (underscore_groups g gs) = last h"
      by (simp add: underscore_groups_def)
    ultimately show ?thesis by simp
  qed
  with h show ?thesis by blast
qed

lemma trim_parts:
  "\<exists>a b. s = a @ rev (dropWhile P (rev (dropWhile P s))) @ b \<and> list_all P a \<and> list_all P b"
proof -
  let ?d = "dropWhile P s"
  have 1: "s = takeWhile P s @ ?d" by simp
  have "rev (dropWhile P (rev ?d)) @ rev (takeWhile P (rev ?d))
        = rev (takeWhile P (rev ?d) @ dropWhile P (rev ?d))"
    by (simp only: rev_append)
  also have "\<dots> = rev (rev ?d)" by (simp only: takeWhile_dropWhile_id)
  also have "\<dots> = ?d" by (simp only: rev_rev_ident)
  finally have 2: "?d = rev (dropWhile P (rev ?d)) @ rev (takeWhile P (rev ?d))" by simp
  have a: "list_all P (takeWhile P s)" by (auto simp: list_all_iff dest: set_takeWhileD)
  have b: "list_all P (rev (takeWhile P (rev ?d)))"
    by (auto simp: list_all_iff dest: set_takeWhileD)
  from 1 2 have "s = takeWhile P s @ rev (dropWhile P (rev ?d)) @ rev (takeWhile P (rev ?d))"
    by metis
  with a b show ?thesis by blast
qed


subsection \<open>The strings that are accepted\<close>

lemma py_int_accepts:
  assumes wa: "list_all int_space wa" and wb: "list_all int_space wb"
    and sg: "sg \<in> set ['''', ''+'', ''-'']"
    and gr: "list_all digit_group (g # gs)"
    and lim: "\<not> over_limit maxd (length (concat (g # gs)))"
  shows "py_int maxd (wa @ sg @ underscore_groups g gs @ wb)
         = Inr (if sg = ''-'' then - int (decimal_value (concat (g # gs)))
                else int (decimal_value (concat (g # gs))))"
proof -
  let ?u = "underscore_groups g gs"
  let ?m = "sg @ ?u"
  from gr have dg: "digit_group g" and gs: "list_all digit_group gs" by simp_all
  from dg have g: "g \<noteq> []" "list_all isdigit g" by (simp_all add: digit_group_def)
  from groups_ends [OF g gs] have une: "?u \<noteq> []" and uh: "isdigit (hd ?u)"
    and ul: "isdigit (last ?u)" by simp_all
  have m: "?m \<noteq> []" using une by simp
  have l: "\<not> int_space (last ?m)" using une ul by (simp add: isdigit_not_int_space)
  have h: "\<not> int_space (hd ?m)"
  proof (cases "sg = []")
    case True
    with uh show ?thesis by (simp add: isdigit_not_int_space)
  next
    case False
    with sg have "hd ?m = CHR ''+'' \<or> hd ?m = CHR ''-''" by auto
    then show ?thesis by (auto simp: sign_chars)
  qed
  from wa wb have wa': "\<forall>c\<in>set wa. int_space c" and wb': "\<forall>c\<in>set wb. int_space c"
    by (simp_all add: list_all_iff)
  from trim_both [OF wa' wb' m h l]
  have t: "rev (dropWhile int_space (rev (dropWhile int_space (wa @ sg @ ?u @ wb)))) = sg @ ?u"
    by simp
  have v: "int_digits 0 False ?u = Some (decimal_value (concat (g # gs)))"
    using int_digits_groups [OF g(2) gs, of False 0] g(1) by (simp add: decimal_value_def)
  have f: "filter isdigit ?u = concat (g # gs)" using groups_filter [OF g(2) gs] by simp
  from sg have fs: "filter isdigit (sg @ ?u) = concat (g # gs)"
    using f by (auto simp: sign_chars)
  with lim have nl: "\<not> over_limit maxd (length (filter isdigit (sg @ ?u)))" by simp
  from sg consider "sg = []" | "sg = ''+''" | "sg = ''-''" by auto
  then show ?thesis
  proof cases
    case 1
    obtain c cs where uc: "?u = c # cs" using une by (cases ?u) auto
    with uh have "isdigit c" by simp
    then have "c \<noteq> CHR ''-'' \<and> c \<noteq> CHR ''+''" by (simp add: isdigit_not_sign)
    with 1 t v nl uc show ?thesis by (simp add: py_int_def)
  next
    case 2
    with t v nl show ?thesis by (simp add: py_int_def)
  next
    case 3
    with t v nl show ?thesis by (simp add: py_int_def)
  qed
qed

lemma py_int_shape:
  assumes "py_int maxd s = Inr i"
  shows "\<exists>wa sg g gs wb. s = wa @ sg @ underscore_groups g gs @ wb
           \<and> list_all int_space wa \<and> list_all int_space wb
           \<and> sg \<in> set ['''', ''+'', ''-''] \<and> list_all digit_group (g # gs)
           \<and> \<not> over_limit maxd (length (concat (g # gs)))
           \<and> i = (if sg = ''-'' then - int (decimal_value (concat (g # gs)))
                   else int (decimal_value (concat (g # gs))))"
proof -
  let ?t = "rev (dropWhile int_space (rev (dropWhile int_space s)))"
  from trim_parts [of s int_space] obtain wa wb where
    s: "s = wa @ ?t @ wb" and wa: "list_all int_space wa" and wb: "list_all int_space wb"
    by blast
  from assms have nl: "\<not> over_limit maxd (length (filter isdigit ?t))"
    by (auto simp: py_int_def Let_def split: if_splits)
  have key: "\<exists>sg g gs. ?t = sg @ underscore_groups g gs \<and> sg \<in> set ['''', ''+'', ''-'']
           \<and> list_all digit_group (g # gs)
           \<and> i = (if sg = ''-'' then - int (decimal_value (concat (g # gs)))
                   else int (decimal_value (concat (g # gs))))"
  proof (cases ?t)
    case Nil
    with assms show ?thesis by (simp add: py_int_def Let_def split: if_splits)
  next
    case (Cons c cs)
    have shape: "\<exists>g gs. body = underscore_groups g gs \<and> list_all digit_group (g # gs)
                   \<and> n = decimal_value (concat (g # gs))"
      if "int_digits 0 False body = Some n" for body n
    proof -
      from int_digits_shape [OF that] obtain g gs where
        "body = underscore_groups g gs" "list_all isdigit g" "list_all digit_group gs"
        "g \<noteq> []" "n = foldl (\<lambda>a c. a * 10 + digit_value c) 0 (g @ concat gs)" by blast
      then have "body = underscore_groups g gs \<and> list_all digit_group (g # gs)
                   \<and> n = decimal_value (concat (g # gs))"
        by (simp add: digit_group_def decimal_value_def)
      then show ?thesis by blast
    qed
    consider "c = CHR ''-''" | "c = CHR ''+''" | "c \<noteq> CHR ''-'' \<and> c \<noteq> CHR ''+''" by blast
    then show ?thesis
    proof cases
      case 1
      with assms Cons nl obtain n where n: "int_digits 0 False cs = Some n" and i: "i = - int n"
        by (auto simp: py_int_def Let_def split: if_splits option.splits)
      from shape [OF n] obtain g gs where
        a: "cs = underscore_groups g gs" "list_all digit_group (g # gs)"
           "n = decimal_value (concat (g # gs))" by blast
      from a i 1 Cons
      have "?t = ''-'' @ underscore_groups g gs \<and> ''-'' \<in> set ['''', ''+'', ''-'']
           \<and> list_all digit_group (g # gs)
           \<and> i = (if ''-'' = ''-'' then - int (decimal_value (concat (g # gs)))
                   else int (decimal_value (concat (g # gs))))"
        by simp
      then show ?thesis by blast
    next
      case 2
      with assms Cons nl obtain n where n: "int_digits 0 False cs = Some n" and i: "i = int n"
        by (auto simp: py_int_def Let_def split: if_splits option.splits)
      from shape [OF n] obtain g gs where
        a: "cs = underscore_groups g gs" "list_all digit_group (g # gs)"
           "n = decimal_value (concat (g # gs))" by blast
      from a i 2 Cons
      have "?t = ''+'' @ underscore_groups g gs \<and> ''+'' \<in> set ['''', ''+'', ''-'']
           \<and> list_all digit_group (g # gs)
           \<and> i = (if ''+'' = ''-'' then - int (decimal_value (concat (g # gs)))
                   else int (decimal_value (concat (g # gs))))"
        by simp
      then show ?thesis by blast
    next
      case 3
      with assms Cons nl obtain n where n: "int_digits 0 False (c # cs) = Some n"
        and i: "i = int n"
        by (auto simp: py_int_def Let_def split: if_splits option.splits)
      from shape [OF n] obtain g gs where
        a: "c # cs = underscore_groups g gs" "list_all digit_group (g # gs)"
           "n = decimal_value (concat (g # gs))" by blast
      from a i Cons
      have "?t = [] @ underscore_groups g gs \<and> [] \<in> set ['''', ''+'', ''-'']
           \<and> list_all digit_group (g # gs)
           \<and> i = (if [] = ''-'' then - int (decimal_value (concat (g # gs)))
                   else int (decimal_value (concat (g # gs))))"
        by simp
      then show ?thesis by blast
    qed
  qed
  then obtain sg g gs where
    k: "?t = sg @ underscore_groups g gs" "sg \<in> set ['''', ''+'', ''-'']"
       "list_all digit_group (g # gs)"
       "i = (if sg = ''-'' then - int (decimal_value (concat (g # gs)))
             else int (decimal_value (concat (g # gs))))" by blast
  from k(3) have dg: "list_all isdigit g" and gs: "list_all digit_group gs"
    by (simp_all add: digit_group_def)
  from k(2) have fe: "filter isdigit (sg @ underscore_groups g gs) = concat (g # gs)"
    using groups_filter [OF dg gs] by (auto simp: sign_chars)
  from nl have "\<not> over_limit maxd (length (filter isdigit (sg @ underscore_groups g gs)))"
    unfolding k(1) .
  then have lim: "\<not> over_limit maxd (length (concat (g # gs)))" unfolding fe .
  from s k(1) have "s = wa @ sg @ underscore_groups g gs @ wb" by simp
  with wa wb k(2,3,4) lim show ?thesis by blast
qed

lemma py_int_error: "py_int maxd s = Inl e \<Longrightarrow> e = ValueError"
  by (auto simp: py_int_def Let_def split: if_splits option.splits)

lemma py_int_bad_char:
  assumes "c \<in> set s" and "\<not> isdigit c" and "\<not> int_space c"
    and "c \<noteq> CHR ''+''" and "c \<noteq> CHR ''-''" and "c \<noteq> CHR ''_''"
  shows "py_int maxd s = Inl ValueError"
proof -
  let ?t = "rev (dropWhile int_space (rev (dropWhile int_space s)))"
  from assms(1) assms(3) have ct: "c \<in> set ?t" by (rule trim_kept)
  then obtain x xs where t: "?t = x # xs" by (cases ?t) auto
  have whole: "int_digits 0 False ?t = None"
    using ct assms(2) assms(6) by (rule int_digits_bad)
  show ?thesis
  proof (cases "x = CHR ''-'' \<or> x = CHR ''+''")
    case True
    with ct t assms(4,5) have "c \<in> set xs" by auto
    then have n: "int_digits 0 False xs = None"
      using assms(2) assms(6) by (rule int_digits_bad)
    show ?thesis unfolding py_int_def Let_def t using True n by auto
  next
    case False
    from whole have n: "int_digits 0 False (x # xs) = None" unfolding t .
    show ?thesis unfolding py_int_def Let_def t using False n by auto
  qed
qed


lemma lower_char_n:
  "lower_char c = CHR ''n''
   \<Longrightarrow> \<not> isdigit c \<and> \<not> int_space c \<and> c \<noteq> CHR ''+'' \<and> c \<noteq> CHR ''-'' \<and> c \<noteq> CHR ''_''"
  by (auto simp: lower_char_def isdigit_def int_space_def Let_def split: if_splits)

lemma py_int_nil: "lower s = ''nil'' \<Longrightarrow> py_int maxd s = Inl ValueError"
proof -
  assume a: "lower s = ''nil''"
  then obtain c cs where s: "s = c # cs" and c: "lower_char c = CHR ''n''"
    by (cases s) (auto simp: lower_def)
  from lower_char_n [OF c] s show ?thesis
    by (intro py_int_bad_char [of c]) simp_all
qed

text \<open>
  C6 as stated fails: a sign is not a digit, and \<open>int\<close> accepts it; so it does
  whitespace around the number.
\<close>

theorem integer_parser_sign_counterexample:
  "CHR ''-'' \<in> set ''-5'' \<and> \<not> isdigit CHR ''-''
   \<and> TYPE_PARSER_MAP example_ext INTEGER ''-5'' = Inr (PyInt (- 5))
   \<and> isspace CHR 0x20
   \<and> TYPE_PARSER_MAP example_ext INTEGER [CHR 0x20, CHR ''1'', CHR ''2'', CHR 0x20] = Inr (PyInt 12)"
  by code_simp

text \<open>
  C6, amended. The INTEGER parser is Python's \<open>int\<close>. It succeeds exactly on the
  strings made of whitespace (possibly none), one sign or none, groups of decimal
  digits separated by single underscores, and whitespace (possibly none), where the
  number of digits is within the interpreter's limit; the result is the base-10
  value of the digits, negated after a minus sign. On every other string it raises
  \<open>ValueError\<close>.
\<close>

theorem integer_parser_exact:
  "(TYPE_PARSER_MAP ext INTEGER s = Inr v)
     = (\<exists>wa sg g gs wb.
          s = wa @ sg @ underscore_groups g gs @ wb
          \<and> list_all int_space wa \<and> list_all int_space wb
          \<and> sg \<in> set ['''', ''+'', ''-'']
          \<and> list_all digit_group (g # gs)
          \<and> \<not> over_limit (int_max_str_digits ext) (length (concat (g # gs)))
          \<and> v = PyInt (if sg = ''-'' then - int (decimal_value (concat (g # gs)))
                       else int (decimal_value (concat (g # gs)))))
   \<and> ((\<exists>i. TYPE_PARSER_MAP ext INTEGER s = Inr (PyInt i))
        \<or> TYPE_PARSER_MAP ext INTEGER s = Inl ValueError)"
proof (intro conjI iffI)
  let ?maxd = "int_max_str_digits ext"
  assume "TYPE_PARSER_MAP ext INTEGER s = Inr v"
  then obtain i where i: "py_int ?maxd s = Inr i" and v: "v = PyInt i"
    by (cases "py_int ?maxd s") (auto simp: TYPE_PARSER_MAP_def)
  from py_int_shape [OF i] v
  show "\<exists>wa sg g gs wb.
          s = wa @ sg @ underscore_groups g gs @ wb
          \<and> list_all int_space wa \<and> list_all int_space wb
          \<and> sg \<in> set ['''', ''+'', ''-'']
          \<and> list_all digit_group (g # gs)
          \<and> \<not> over_limit ?maxd (length (concat (g # gs)))
          \<and> v = PyInt (if sg = ''-'' then - int (decimal_value (concat (g # gs)))
                       else int (decimal_value (concat (g # gs))))"
    by blast
next
  let ?maxd = "int_max_str_digits ext"
  assume "\<exists>wa sg g gs wb.
          s = wa @ sg @ underscore_groups g gs @ wb
          \<and> list_all int_space wa \<and> list_all int_space wb
          \<and> sg \<in> set ['''', ''+'', ''-'']
          \<and> list_all digit_group (g # gs)
          \<and> \<not> over_limit ?maxd (length (concat (g # gs)))
          \<and> v = PyInt (if sg = ''-'' then - int (decimal_value (concat (g # gs)))
                       else int (decimal_value (concat (g # gs))))"
  then obtain wa sg g gs wb where
    a: "s = wa @ sg @ underscore_groups g gs @ wb"
       "list_all int_space wa" "list_all int_space wb"
       "sg \<in> set ['''', ''+'', ''-'']" "list_all digit_group (g # gs)"
       "\<not> over_limit ?maxd (length (concat (g # gs)))"
       "v = PyInt (if sg = ''-'' then - int (decimal_value (concat (g # gs)))
                  else int (decimal_value (concat (g # gs))))" by blast
  from py_int_accepts [OF a(2) a(3) a(4) a(5) a(6)] a(1) a(7)
  show "TYPE_PARSER_MAP ext INTEGER s = Inr v" by (simp add: TYPE_PARSER_MAP_def)
next
  let ?maxd = "int_max_str_digits ext"
  show "(\<exists>i. TYPE_PARSER_MAP ext INTEGER s = Inr (PyInt i))
        \<or> TYPE_PARSER_MAP ext INTEGER s = Inl ValueError"
  proof (cases "py_int ?maxd s")
    case (Inl e)
    with py_int_error [OF Inl] show ?thesis by (simp add: TYPE_PARSER_MAP_def)
  next
    case (Inr i)
    then show ?thesis by (simp add: TYPE_PARSER_MAP_def)
  qed
qed

theorem integer_parser_exact_witness:
  "TYPE_PARSER_MAP example_ext INTEGER ''123'' = Inr (PyInt 123)
   \<and> TYPE_PARSER_MAP example_ext INTEGER [CHR 0x09, CHR ''-'', CHR ''1'', CHR ''_'', CHR ''0'', CHR 0x20]
       = Inr (PyInt (- 10))
   \<and> TYPE_PARSER_MAP example_ext INTEGER ''+'' = Inl ValueError
   \<and> TYPE_PARSER_MAP example_ext INTEGER ''1 2'' = Inl ValueError
   \<and> TYPE_PARSER_MAP example_ext INTEGER ''--5'' = Inl ValueError
   \<and> TYPE_PARSER_MAP example_ext INTEGER ''1__0'' = Inl ValueError
   \<and> TYPE_PARSER_MAP example_ext INTEGER ''1.0'' = Inl ValueError
   \<and> TYPE_PARSER_MAP example_ext INTEGER [] = Inl ValueError"
proof -
  have g: "list_all digit_group [''123'']" by (simp add: digit_group_def isdigit_def)
  have l: "\<not> over_limit (int_max_str_digits example_ext) (length (concat [''123'']))"
    by (simp add: over_limit_def)
  have v: "decimal_value (concat [''123'']) = 123" by (simp add: decimal_value_def digit_value_def)
  have "\<exists>wa sg g gs wb.
          ''123'' = wa @ sg @ underscore_groups g gs @ wb
          \<and> list_all int_space wa \<and> list_all int_space wb
          \<and> sg \<in> set ['''', ''+'', ''-'']
          \<and> list_all digit_group (g # gs)
          \<and> \<not> over_limit (int_max_str_digits example_ext) (length (concat (g # gs)))
          \<and> PyInt 123 = PyInt (if sg = ''-'' then - int (decimal_value (concat (g # gs)))
                       else int (decimal_value (concat (g # gs))))"
    using g l v
    by (intro exI [of _ "[]"] exI [of _ "''123''"]) (simp add: underscore_groups_def)
  with integer_parser_exact [of example_ext "''123''" "PyInt 123"]
  have 1: "TYPE_PARSER_MAP example_ext INTEGER ''123'' = Inr (PyInt 123)" by blast
  have 2: "TYPE_PARSER_MAP example_ext INTEGER [CHR 0x09, CHR ''-'', CHR ''1'', CHR ''_'', CHR ''0'', CHR 0x20]
       = Inr (PyInt (- 10))" by code_simp
  have 3: "TYPE_PARSER_MAP example_ext INTEGER ''+'' = Inl ValueError"
    "TYPE_PARSER_MAP example_ext INTEGER ''1 2'' = Inl ValueError"
    "TYPE_PARSER_MAP example_ext INTEGER ''--5'' = Inl ValueError"
    "TYPE_PARSER_MAP example_ext INTEGER ''1__0'' = Inl ValueError"
    "TYPE_PARSER_MAP example_ext INTEGER ''1.0'' = Inl ValueError"
    "TYPE_PARSER_MAP example_ext INTEGER [] = Inl ValueError"
    by code_simp+
  from 1 2 3 show ?thesis by blast
qed


section \<open>The null override at sending\<close>

text \<open>
  C8. For a nullable field, the override (the value \<open>None\<close> of type \<open>NULL\<close>, with no
  parser called) is taken exactly when the interpolated string is, in lower case, the
  empty string, \<open>none\<close> or \<open>null\<close>. On every other string the field is handled as a
  field that is not nullable: the parser of the declared type is applied to the string
  as it is, and its result or its exception is the field's. The string \<open>nil\<close>, in any
  letter case, is such a string, although the NULL parser accepts it: the value is
  the one of the declared type's parser, which for a declared type other than NULL is
  not the NULL assignment; the INTEGER parser raises \<open>ValueError\<close> on it, and a call
  with a nullable INTEGER field interpolated to \<open>nil\<close> fails and executes nothing.
\<close>

theorem null_override_exact:
  assumes "format_map ext tmpl kwargs = Inr s"
  shows "(field_value ext kwargs (True, ftype, fname, tmpl) = (Inr (PyNone, NULL), [Formatted tmpl]))
           = (lower s \<in> set ['''', ''none'', ''null''])
       \<and> (lower s \<notin> set ['''', ''none'', ''null'']
            \<longrightarrow> field_value ext kwargs (True, ftype, fname, tmpl)
                  = field_value ext kwargs (False, ftype, fname, tmpl))
       \<and> (\<forall>t. lower s \<notin> set ['''', ''none'', ''null''] \<and> TYPE_MAP ftype = Some t
            \<longrightarrow> field_value ext kwargs (True, ftype, fname, tmpl)
                  = (map_sum id (\<lambda>v. (v, t)) (TYPE_PARSER_MAP ext t s),
                     [Formatted tmpl, Parsed t s]))
       \<and> (\<forall>t. lower s \<notin> set ['''', ''none'', ''null''] \<and> TYPE_MAP ftype = Some t \<and> t \<noteq> NULL
            \<longrightarrow> fst (field_value ext kwargs (True, ftype, fname, tmpl)) \<noteq> Inr (PyNone, NULL))
       \<and> (lower s = ''nil''
            \<longrightarrow> lower s \<notin> set ['''', ''none'', ''null''] \<and> null_parser s = Inr PyNone)
       \<and> (lower s = ''nil'' \<and> TYPE_MAP ftype = Some INTEGER
            \<longrightarrow> field_value ext kwargs (True, ftype, fname, tmpl)
                  = (Inl ValueError, [Formatted tmpl, Parsed INTEGER s]))
       \<and> (lower s = ''nil'' \<and> TYPE_MAP ftype = Some INTEGER
            \<and> (True, ftype, fname, tmpl) \<in> set (self_fields self)
            \<longrightarrow> (\<exists>e. fst (call ext self None kwargs) = Inl e)
                \<and> executed (snd (call ext self None kwargs)) = [])"
proof -
  let ?fv = "field_value ext kwargs (True, ftype, fname, tmpl)"
  have fires: "(?fv = (Inr (PyNone, NULL), [Formatted tmpl]))
           = (lower s \<in> set ['''', ''none'', ''null''])"
    using assms by (simp add: field_value_def split: option.splits sum.splits)
  have same: "?fv = field_value ext kwargs (False, ftype, fname, tmpl)"
    if "lower s \<notin> set ['''', ''none'', ''null'']"
    using that assms by (simp add: field_value_def)
  have run: "?fv = (map_sum id (\<lambda>v. (v, t)) (TYPE_PARSER_MAP ext t s), [Formatted tmpl, Parsed t s])"
    if "lower s \<notin> set ['''', ''none'', ''null''] \<and> TYPE_MAP ftype = Some t" for t
    using that assms by (simp add: field_value_def split: sum.splits)
  have other: "fst ?fv \<noteq> Inr (PyNone, NULL)"
    if "lower s \<notin> set ['''', ''none'', ''null''] \<and> TYPE_MAP ftype = Some t \<and> t \<noteq> NULL" for t
    using that assms by (auto simp: field_value_def split: sum.splits)
  have nil: "lower s \<notin> set ['''', ''none'', ''null''] \<and> null_parser s = Inr PyNone"
    if "lower s = ''nil''"
    using that by (simp add: null_parser_def)
  have fv: "?fv = (Inl ValueError, [Formatted tmpl, Parsed INTEGER s])"
    if a: "lower s = ''nil'' \<and> TYPE_MAP ftype = Some INTEGER"
  proof -
    from a have "py_int (int_max_str_digits ext) s = Inl ValueError" by (simp add: py_int_nil)
    then have "TYPE_PARSER_MAP ext INTEGER s = Inl ValueError" by (simp add: TYPE_PARSER_MAP_def)
    with a nil run [of INTEGER] show ?thesis by simp
  qed
  have c: "(\<exists>e. fst (call ext self None kwargs) = Inl e)
                \<and> executed (snd (call ext self None kwargs)) = []"
    if a: "lower s = ''nil'' \<and> TYPE_MAP ftype = Some INTEGER
            \<and> (True, ftype, fname, tmpl) \<in> set (self_fields self)"
  proof -
    from a fv have "fst ?fv = Inl ValueError" by simp
    with a show ?thesis by (intro call_field_fails) auto
  qed
  from fires same run other nil fv c show ?thesis by blast
qed

theorem null_override_exact_witness:
  "format_map example_ext ''{count}'' [''name'' \<mapsto> ''X'', ''count'' \<mapsto> ''Nil''] = Inr ''Nil''
   \<and> lower ''Nil'' = ''nil''
   \<and> lower ''Nil'' \<notin> set ['''', ''none'', ''null'']
   \<and> TYPE_MAP ''integer'' = Some INTEGER
   \<and> (True, ''integer'', ''Count'', ''{count}'') \<in> set (self_fields example_notifier)
   \<and> field_value example_ext [''name'' \<mapsto> ''X'', ''count'' \<mapsto> ''Nil'']
        (True, ''integer'', ''Count'', ''{count}'')
       \<noteq> (Inr (PyNone, NULL), [Formatted ''{count}''])
   \<and> field_value example_ext [''name'' \<mapsto> ''X'', ''count'' \<mapsto> ''Nil'']
        (True, ''integer'', ''Count'', ''{count}'')
       = (Inl ValueError, [Formatted ''{count}'', Parsed INTEGER ''Nil''])
   \<and> null_parser ''Nil'' = Inr PyNone
   \<and> (\<exists>e. fst (call example_ext example_notifier None [''name'' \<mapsto> ''X'', ''count'' \<mapsto> ''Nil'']) = Inl e)
   \<and> executed (snd (call example_ext example_notifier None [''name'' \<mapsto> ''X'', ''count'' \<mapsto> ''Nil''])) = []"
proof -
  let ?kw = "[''name'' \<mapsto> ''X'', ''count'' \<mapsto> ''Nil'']"
  have h1: "format_map example_ext ''{count}'' ?kw = Inr ''Nil''"
    by (simp add: example_ext_def)
  have h2: "lower ''Nil'' = ''nil''" by code_simp
  have h3: "TYPE_MAP ''integer'' = Some INTEGER" by (simp add: TYPE_MAP_def)
  have h4: "(True, ''integer'', ''Count'', ''{count}'') \<in> set (self_fields example_notifier)"
    by (simp add: example_notifier_def)
  from h2 have h5: "lower ''Nil'' \<notin> set ['''', ''none'', ''null'']" by simp
  from null_override_exact [OF h1, of "''integer''" "''Count''" example_notifier] h1 h2 h3 h4 h5
  show ?thesis by blast
qed

text \<open>
  The same string under the declared type NULL: the NULL parser is called and accepts
  it, so the value is \<open>None\<close> by the rule of the declared type, not by the override.
\<close>

lemma nil_declared_null:
  "field_value example_ext [''x'' \<mapsto> ''nil''] (True, ''null'', ''Gone'', ''{x}'')
     = (Inr (PyNone, NULL), [Formatted ''{x}'', Parsed NULL ''nil''])"
  by code_simp


section \<open>Whitespace, tokens and the keyword\<close>

lemma isspace_not_punct: "isspace c \<Longrightarrow> c \<noteq> CHR '':'' \<and> c \<noteq> CHR ''['' \<and> c \<noteq> CHR '']''"
  by (auto simp: isspace_def)

lemma lower_char_space: "isspace c \<Longrightarrow> lower_char c = c"
  by (auto simp: isspace_def lower_char_def Let_def)

lemma nullable_letters: "c \<in> set ''nullable'' \<Longrightarrow> \<not> isspace c"
  by (auto simp: isspace_def)

lemma keyword_no_space:
  assumes "lower kw = ''nullable''"
  shows "length kw = 8 \<and> kw \<noteq> [] \<and> (\<forall>c\<in>set kw. \<not> isspace c)"
proof -
  from assms have "length (lower kw) = 8" by simp
  then have len: "length kw = 8" by (simp add: lower_def)
  have "\<not> isspace c" if c: "c \<in> set kw" for c
  proof
    assume sp: "isspace c"
    from c have "lower_char c \<in> set (lower kw)" by (simp add: lower_def)
    with sp assms have "c \<in> set ''nullable''" by (simp add: lower_char_space)
    with sp show False using nullable_letters by blast
  qed
  with len show ?thesis by auto
qed

lemma split_from_token:
  "\<forall>c\<in>set tok. \<not> isspace c \<Longrightarrow> split_from cur (tok @ r) = split_from (cur @ tok) r"
  by (induction tok arbitrary: cur) simp_all

lemma split_first:
  assumes "tok \<noteq> []" and "\<forall>c\<in>set tok. \<not> isspace c" and "isspace w"
  shows "split (tok @ w # r) = tok # split r"
proof -
  from assms(2) have "split_from [] (tok @ w # r) = split_from ([] @ tok) (w # r)"
    by (rule split_from_token)
  with assms(1,3) show ?thesis by (simp add: split_def)
qed

lemma strip_hd_last:
  assumes "strip s \<noteq> []"
  shows "\<not> isspace (hd (strip s)) \<and> \<not> isspace (last (strip s))"
proof -
  let ?d = "dropWhile isspace s"
  let ?e = "dropWhile isspace (rev ?d)"
  from assms have e: "?e \<noteq> []" by (simp add: strip_def)
  then have he: "\<not> isspace (hd ?e)" by (rule hd_dropWhile)
  from e have l: "last (strip s) = hd ?e" by (simp add: strip_def last_rev)
  have d: "?d \<noteq> []"
  proof
    assume a: "?d = []"
    have "?e = []" unfolding a by simp
    with e show False by blast
  qed
  then have hd: "\<not> isspace (hd ?d)" by (rule hd_dropWhile)
  from d have "last (rev ?d) = hd ?d" by (simp add: last_rev)
  moreover from d have "hd ?d \<in> set (rev ?d)" by simp
  ultimately have "last ?e = hd ?d" using hd by (metis dropWhile_last)
  with e have "hd (strip s) = hd ?d" by (simp add: strip_def hd_rev)
  with hd he l show ?thesis by simp
qed

lemma strip_subset: "set (strip s) \<subseteq> set s"
  by (auto simp: strip_def dest!: set_dropWhileD)

section \<open>The scanning loop\<close>

lemma scan_append: "scan st (a @ b) = scan (scan st a) b"
  by (simp add: scan_def)

lemma scan_Cons: "scan st (c # cs) = scan (scan_char st c) cs"
  by (simp add: scan_def)

lemma scan_Nil: "scan st [] = st"
  by (simp add: scan_def)

text \<open>Before the first whitespace character, every character joins the type.\<close>

lemma scan_type:
  "field_name st = None \<Longrightarrow> value_template st = None \<Longrightarrow> \<forall>c\<in>set ty. \<not> isspace c
   \<Longrightarrow> scan st ty = st\<lparr>field_type := field_type st @ ty\<rparr>"
  by (induction ty arbitrary: st) (simp_all add: scan_Nil scan_Cons scan_char_def)

text \<open>Outside brackets, characters other than the colon join the name.\<close>

lemma scan_name_outside:
  "value_template st = None \<Longrightarrow> field_name st = Some n \<Longrightarrow> \<not> in_brackets st
   \<Longrightarrow> \<forall>c\<in>set xs. c \<noteq> CHR '':'' \<Longrightarrow> n \<noteq> [] \<or> xs = [] \<or> hd xs \<noteq> CHR ''[''
   \<Longrightarrow> scan st xs = st\<lparr>field_name := Some (n @ xs)\<rparr>"
  by (induction xs arbitrary: st n) (auto simp: scan_Nil scan_Cons scan_char_def)

text \<open>Inside brackets, characters other than the closing bracket join the name.\<close>

lemma scan_name_inside:
  "value_template st = None \<Longrightarrow> field_name st = Some n \<Longrightarrow> in_brackets st
   \<Longrightarrow> \<forall>c\<in>set xs. c \<noteq> CHR '']'' \<Longrightarrow> n \<noteq> [] \<or> xs = [] \<or> hd xs \<noteq> CHR ''[''
   \<Longrightarrow> scan st xs = st\<lparr>field_name := Some (n @ xs)\<rparr>"
  by (induction xs arbitrary: st n) (auto simp: scan_Nil scan_Cons scan_char_def)

text \<open>After the colon, every character joins the template.\<close>

lemma scan_template:
  "value_template st = Some t \<Longrightarrow> scan st xs = st\<lparr>value_template := Some (t @ xs)\<rparr>"
  by (induction xs arbitrary: st t) (simp_all add: scan_Nil scan_Cons scan_char_def)


section \<open>Brackets\<close>

text \<open>Inside brackets the scanner is still in the name, and has not reached the template.\<close>

lemma scan_char_in_name:
  "in_brackets st \<longrightarrow> value_template st = None \<and> field_name st \<noteq> None
   \<Longrightarrow> in_brackets (scan_char st c)
         \<longrightarrow> value_template (scan_char st c) = None \<and> field_name (scan_char st c) \<noteq> None"
  by (auto simp: scan_char_def split: option.splits)

lemma scan_in_name:
  "in_brackets st \<longrightarrow> value_template st = None \<and> field_name st \<noteq> None
   \<Longrightarrow> in_brackets (scan st s)
         \<longrightarrow> value_template (scan st s) = None \<and> field_name (scan st s) \<noteq> None"
proof (induction s arbitrary: st)
  case Nil
  then show ?case by (simp add: scan_Nil)
next
  case (Cons c cs)
  from scan_char_in_name [OF Cons.prems]
  have "in_brackets (scan (scan_char st c) cs)
         \<longrightarrow> value_template (scan (scan_char st c) cs) = None
             \<and> field_name (scan (scan_char st c) cs) \<noteq> None"
    by (rule Cons.IH)
  then show ?case by (simp add: scan_Cons)
qed

lemma scan_stays_in_brackets:
  "in_brackets st \<Longrightarrow> value_template st = None \<Longrightarrow> field_name st \<noteq> None
   \<Longrightarrow> CHR '']'' \<notin> set rest \<Longrightarrow> in_brackets (scan st rest)"
proof (induction rest arbitrary: st)
  case Nil
  then show ?case by (simp add: scan_Nil)
next
  case (Cons c cs)
  from Cons.prems obtain n where n: "field_name st = Some n" by auto
  from Cons.prems have c: "c \<noteq> CHR '']''" by auto
  let ?st = "scan_char st c"
  from Cons.prems(1,2) n c
  have "in_brackets ?st \<and> value_template ?st = None \<and> field_name ?st \<noteq> None"
    by (simp add: scan_char_def)
  moreover from Cons.prems(4) have "CHR '']'' \<notin> set cs" by simp
  ultimately have "in_brackets (scan ?st cs)" using Cons.IH by blast
  then show ?case by (simp add: scan_Cons)
qed

lemma finish_in_brackets: "in_brackets st \<Longrightarrow> finish nl st = Inl AssertionError"
  by (simp add: finish_def Let_def)

text \<open>Without an opening bracket the scanner never enters brackets, and no colon joins the name.\<close>

lemma scan_no_bracket:
  "CHR ''['' \<notin> set s \<Longrightarrow> \<not> in_brackets st
   \<Longrightarrow> \<forall>n. field_name st = Some n \<longrightarrow> CHR '':'' \<notin> set n
   \<Longrightarrow> \<not> in_brackets (scan st s)
       \<and> (\<forall>n. field_name (scan st s) = Some n \<longrightarrow> CHR '':'' \<notin> set n)"
proof (induction s arbitrary: st)
  case Nil
  then show ?case by (simp add: scan_Nil)
next
  case (Cons c cs)
  let ?st = "scan_char st c"
  from Cons.prems have c: "c \<noteq> CHR ''[''" by auto
  with Cons.prems(2,3)
  have "\<not> in_brackets ?st \<and> (\<forall>n. field_name ?st = Some n \<longrightarrow> CHR '':'' \<notin> set n)"
    by (auto simp: scan_char_def split: option.splits if_splits)
  moreover from Cons.prems(1) have "CHR ''['' \<notin> set cs" by simp
  ultimately have "\<not> in_brackets (scan ?st cs)
       \<and> (\<forall>n. field_name (scan ?st cs) = Some n \<longrightarrow> CHR '':'' \<notin> set n)"
    using Cons.IH by blast
  then show ?case by (simp add: scan_Cons)
qed

lemma strip_nullable_subset:
  assumes "strip_nullable line = Inr (nl, body)"
  shows "set body \<subseteq> set line"
proof -
  have a: "set (strip line) \<subseteq> set line" by (rule strip_subset)
  have "set (strip (drop 8 (strip line))) \<subseteq> set (drop 8 (strip line))" by (rule strip_subset)
  also have "\<dots> \<subseteq> set (strip line)" by (rule set_drop_subset)
  finally have b: "set (strip (drop 8 (strip line))) \<subseteq> set line" using a by blast
  from assms a b show ?thesis
    by (auto simp: strip_nullable_def Let_def split: list.splits if_splits)
qed

lemma finish_name:
  assumes "finish nl st = Inr (nl', ty, name, tmpl)"
  shows "\<exists>n. field_name st = Some n \<and> name = strip n \<and> name \<noteq> []"
proof -
  from assms have t: "truthy (strip_if_truthy (field_name st))"
    and nm: "name = the (strip_if_truthy (field_name st))"
    by (auto simp: finish_def Let_def split: if_splits)
  from t obtain n where n: "field_name st = Some n"
    by (cases "field_name st") (auto simp: truthy_def strip_if_truthy_def)
  with t have "n \<noteq> []" "strip n \<noteq> []"
    by (auto simp: truthy_def strip_if_truthy_def split: if_splits)
  with n nm show ?thesis by (simp add: strip_if_truthy_def)
qed

section \<open>The claims about parsing\<close>

text \<open>
  C10. A line that is empty or holds only whitespace raises \<open>IndexError\<close> (the first
  token of an empty list of tokens), not the \<open>AssertionError\<close> of a malformed
  entry.
\<close>

theorem parse_blank_line_index_error:
  "\<forall>c\<in>set line. isspace c \<Longrightarrow> parse_field_mapping_line line = Inl IndexError"
  by (simp add: parse_field_mapping_line_def strip_nullable_def strip_blank split_def)

theorem parse_blank_line_index_error_witness:
  "isspace CHR 0x20 \<and> parse_field_mapping_line [CHR 0x20, CHR 0x09, CHR 0x20] = Inl IndexError
   \<and> Inl IndexError \<noteq> (Inl AssertionError :: pyexc + (bool \<times> string \<times> string \<times> string))"
proof -
  have h: "\<forall>c\<in>set [CHR 0x20, CHR 0x09, CHR 0x20]. isspace c" by (simp add: isspace_def)
  from parse_blank_line_index_error [OF h] h show ?thesis by simp
qed

section \<open>A bracket that is not closed\<close>

text \<open>
  When the scanner is inside a bracketed name after some prefix of the scanned line
  and no closing bracket follows, every later character joins the name, the scanner
  is inside the brackets at the end, and the line is refused with \<open>AssertionError\<close>.
\<close>

lemma scan_unterminated:
  assumes "strip_nullable line = Inr (nl, body)"
    and "body = pre @ rest"
    and "in_brackets (scan scan_init pre)"
    and "CHR '']'' \<notin> set rest"
  shows "parse_field_mapping_line line = Inl AssertionError"
proof -
  let ?st = "scan scan_init pre"
  have "in_brackets scan_init \<longrightarrow> value_template scan_init = None \<and> field_name scan_init \<noteq> None"
    by (simp add: scan_init_def)
  then have "in_brackets ?st \<longrightarrow> value_template ?st = None \<and> field_name ?st \<noteq> None"
    by (rule scan_in_name)
  with assms(3) have vt: "value_template ?st = None" and fn: "field_name ?st \<noteq> None"
    by simp_all
  from assms(3) vt fn assms(4) have "in_brackets (scan ?st rest)"
    by (rule scan_stays_in_brackets)
  then have "in_brackets (scan scan_init body)" by (simp add: assms(2) scan_append)
  then have "finish nl (scan scan_init body) = Inl AssertionError" by (rule finish_in_brackets)
  with assms(1) show ?thesis by (simp add: parse_field_mapping_line_def)
qed

text \<open>
  The scanner is inside a bracketed name when the opening bracket is the character
  right after the first whitespace character that follows the type. So a line whose
  opening bracket stands there, with no closing bracket after it, is refused; the
  line \<open>string [Name: {x}\<close> is one.
\<close>

lemma scan_to_name:
  assumes "\<forall>c\<in>set ty. \<not> isspace c" and "isspace w"
  shows "scan scan_init (ty @ w # rest)
         = scan \<lparr>field_type = ty, field_name = Some [], value_template = None,
                  in_brackets = False\<rparr> rest"
proof -
  have 1: "scan scan_init ty
           = \<lparr>field_type = ty, field_name = None, value_template = None, in_brackets = False\<rparr>"
    using scan_type [of scan_init ty] assms(1) by (simp add: scan_init_def)
  have 2: "scan_char \<lparr>field_type = ty, field_name = None, value_template = None,
                       in_brackets = False\<rparr> w
           = \<lparr>field_type = ty, field_name = Some [], value_template = None,
              in_brackets = False\<rparr>"
    using assms(2) by (simp add: scan_char_def)
  have "scan scan_init (ty @ w # rest) = scan (scan_char (scan scan_init ty) w) rest"
    by (simp add: scan_append scan_Cons)
  then show ?thesis by (simp add: 1 2)
qed

lemma bracket_after_one_blank_unterminated:
  assumes sn: "strip_nullable line = Inr (nl, ty @ w # CHR ''['' # rest)"
    and ty: "\<forall>c\<in>set ty. \<not> isspace c" and w: "isspace w"
    and rest: "CHR '']'' \<notin> set rest"
  shows "parse_field_mapping_line line = Inl AssertionError"
proof -
  from ty w have "scan scan_init (ty @ w # [CHR ''[''])
         = scan \<lparr>field_type = ty, field_name = Some [], value_template = None,
                  in_brackets = False\<rparr> [CHR ''['']"
    by (rule scan_to_name)
  then have ib: "in_brackets (scan scan_init (ty @ w # [CHR ''['']))"
    by (simp add: scan_Cons scan_Nil scan_char_def)
  have b: "ty @ w # CHR ''['' # rest = (ty @ w # [CHR ''['']) @ rest" by simp
  from sn b ib rest show ?thesis by (rule scan_unterminated)
qed

lemma unterminated_bracket_example:
  "parse_field_mapping_line ''string [Name: {x}'' = Inl AssertionError"
proof -
  have sn: "strip_nullable ''string [Name: {x}'' = Inr (False, ''string'' @ CHR 0x20 # CHR ''['' # ''Name: {x}'')"
    by code_simp
  have ty: "\<forall>c\<in>set ''string''. \<not> isspace c" by (simp add: isspace_def)
  have w: "isspace CHR 0x20" by (simp add: isspace_def)
  have r: "CHR '']'' \<notin> set ''Name: {x}''" by simp
  from sn ty w r show ?thesis by (rule bracket_after_one_blank_unterminated)
qed


section \<open>The name of an accepted line\<close>

lemma strip_first: "take 1 (strip s) = take 1 (dropWhile isspace s)"
proof (cases "dropWhile isspace s")
  case Nil
  show ?thesis unfolding strip_def Nil by simp
next
  case (Cons x xs)
  have "dropWhile isspace s \<noteq> []" unfolding Cons by simp
  then have "\<not> isspace (hd (dropWhile isspace s))" by (rule hd_dropWhile)
  then have x: "\<not> isspace x" unfolding Cons by simp
  have k: "\<exists>ys. dropWhile isspace (zs @ [x]) = ys @ [x]" for zs
    using x by (induction zs) auto
  from k [of "rev xs"] obtain ys where ys: "dropWhile isspace (rev xs @ [x]) = ys @ [x]"
    by blast
  show ?thesis unfolding strip_def Cons by (simp add: ys)
qed

lemma finish_accepted:
  assumes "finish nl st = Inr (nl', ftype, name, tmpl)"
  shows "nl' = nl \<and> ftype = lower (strip (field_type st)) \<and> \<not> in_brackets st
       \<and> (\<exists>n. field_name st = Some n \<and> n \<noteq> [] \<and> name = strip n \<and> name \<noteq> [])
       \<and> (\<exists>t. value_template st = Some t \<and> tmpl = strip t)"
proof -
  from assms have a: "truthy (strip_if_truthy (field_name st))"
    "truthy (strip_if_truthy (value_template st))" "\<not> in_brackets st" "nl' = nl"
    "ftype = lower (strip (field_type st))"
    "name = the (strip_if_truthy (field_name st))"
    "tmpl = the (strip_if_truthy (value_template st))"
    by (auto simp: finish_def Let_def split: if_splits)
  from a(1) obtain n where n: "field_name st = Some n"
    by (cases "field_name st") (auto simp: truthy_def strip_if_truthy_def)
  with a(1) have n2: "n \<noteq> []" "strip n \<noteq> []"
    by (auto simp: truthy_def strip_if_truthy_def split: if_splits)
  from a(2) obtain t where t: "value_template st = Some t"
    by (cases "value_template st") (auto simp: truthy_def strip_if_truthy_def)
  with a(2) have t2: "t \<noteq> []"
    by (auto simp: truthy_def strip_if_truthy_def split: if_splits)
  from n n2 a(6) have "name = strip n" by (simp add: strip_if_truthy_def)
  moreover from t t2 a(7) have "tmpl = strip t" by (simp add: strip_if_truthy_def)
  ultimately show ?thesis using a(3,4,5) n n2 t by simp
qed

lemma scan_no_space:
  assumes "\<forall>c\<in>set body. \<not> isspace c"
  shows "field_name (scan scan_init body) = None"
  using scan_type [of scan_init body] assms by (simp add: scan_init_def)

lemma scan_char_keeps_type:
  "field_name st \<noteq> None
   \<Longrightarrow> field_type (scan_char st c) = field_type st \<and> field_name (scan_char st c) \<noteq> None"
  by (auto simp: scan_char_def split: option.splits)

lemma scan_keeps_type:
  "field_name st \<noteq> None
   \<Longrightarrow> field_type (scan st xs) = field_type st \<and> field_name (scan st xs) \<noteq> None"
proof (induction xs arbitrary: st)
  case Nil
  then show ?case by (simp add: scan_Nil)
next
  case (Cons c cs)
  from scan_char_keeps_type [OF Cons.prems]
  have a: "field_type (scan_char st c) = field_type st" and b: "field_name (scan_char st c) \<noteq> None"
    by simp_all
  from Cons.IH [OF b] a show ?case by (simp add: scan_Cons)
qed

text \<open>
  Outside brackets, with the name started or the next character not an opening
  bracket: without a colon the template is never reached; with one, the text before
  the first colon joins the name and the text after it is the template.
\<close>

lemma scan_name_no_colon:
  assumes "value_template st = None" and "field_name st = Some n" and "\<not> in_brackets st"
    and "CHR '':'' \<notin> set xs" and "n \<noteq> [] \<or> xs = [] \<or> hd xs \<noteq> CHR ''[''"
  shows "value_template (scan st xs) = None"
proof -
  from assms(4) have c: "\<forall>c\<in>set xs. c \<noteq> CHR '':''" by blast
  from assms(1,2,3) c assms(5) have "scan st xs = st\<lparr>field_name := Some (n @ xs)\<rparr>"
    by (rule scan_name_outside)
  with assms(1) show ?thesis by simp
qed

lemma scan_name_colon:
  assumes "value_template st = None" and "field_name st = Some n" and "\<not> in_brackets st"
    and "CHR '':'' \<notin> set a" and "n \<noteq> [] \<or> a = [] \<or> hd a \<noteq> CHR ''[''"
  shows "field_name (scan st (a @ CHR '':'' # b)) = Some (n @ a)
       \<and> value_template (scan st (a @ CHR '':'' # b)) = Some b
       \<and> \<not> in_brackets (scan st (a @ CHR '':'' # b))"
proof -
  let ?s1 = "st\<lparr>field_name := Some (n @ a)\<rparr>"
  let ?s2 = "?s1\<lparr>value_template := Some []\<rparr>"
  from assms(4) have c: "\<forall>c\<in>set a. c \<noteq> CHR '':''" by blast
  from assms(1,2,3) c assms(5) have 1: "scan st a = ?s1" by (rule scan_name_outside)
  have 2: "scan_char ?s1 CHR '':'' = ?s2" using assms(1,3) by (simp add: scan_char_def)
  have "value_template ?s2 = Some []" by simp
  then have 3: "scan ?s2 b = ?s2\<lparr>value_template := Some ([] @ b)\<rparr>" by (rule scan_template)
  have "scan st (a @ CHR '':'' # b) = scan (scan_char (scan st a) CHR '':'') b"
    by (simp add: scan_append scan_Cons)
  then have "scan st (a @ CHR '':'' # b) = ?s2\<lparr>value_template := Some ([] @ b)\<rparr>"
    by (simp only: 1 2 3)
  with assms(3) show ?thesis by simp
qed

text \<open>
  Inside brackets with the name started: the text before the first closing bracket
  joins the name, and the bracket takes the scanner out of the brackets.
\<close>

lemma scan_bracket_closed:
  assumes "value_template st = None" and "field_name st = Some n" and "in_brackets st"
    and "n \<noteq> []" and "CHR '']'' \<notin> set a"
  shows "scan st (a @ CHR '']'' # b)
         = scan (st\<lparr>field_name := Some (n @ a), in_brackets := False\<rparr>) b"
proof -
  let ?s1 = "st\<lparr>field_name := Some (n @ a)\<rparr>"
  from assms(5) have c: "\<forall>c\<in>set a. c \<noteq> CHR '']''" by blast
  from assms(4) have h: "n \<noteq> [] \<or> a = [] \<or> hd a \<noteq> CHR ''[''" by blast
  from assms(1,2,3) c h have 1: "scan st a = ?s1" by (rule scan_name_inside)
  have 2: "scan_char ?s1 CHR '']'' = ?s1\<lparr>in_brackets := False\<rparr>"
    using assms(1,3) by (simp add: scan_char_def)
  have "scan st (a @ CHR '']'' # b) = scan (scan_char (scan st a) CHR '']'') b"
    by (simp add: scan_append scan_Cons)
  then show ?thesis by (simp only: 1 2)
qed

text \<open>
  The text after the type and its whitespace character, for a scan that ends outside
  brackets with a name that is not empty and a template, and that does not open
  irregularly: it is a region, the colon and the template, and the region has one of
  the two shapes.
\<close>

lemma name_region_cases:
  assumes s: "value_template s = None" "field_name s = Some []" "\<not> in_brackets s"
    and fn: "field_name (scan s rest) = Some n" and vt: "value_template (scan s rest) = Some t"
    and ib: "\<not> in_brackets (scan s rest)" and ne: "n \<noteq> []"
    and reg: "\<not> irregular_opening rest"
  shows "\<exists>region. rest = region @ CHR '':'' # t
           \<and> ((CHR '':'' \<notin> set region \<and> take 1 region \<noteq> ''['' \<and> n = region)
              \<or> (\<exists>content tail. region = CHR ''['' # content @ CHR '']'' # tail
                    \<and> content \<noteq> [] \<and> take 1 content \<noteq> ''['' \<and> CHR '']'' \<notin> set content
                    \<and> CHR '':'' \<notin> set tail \<and> n = content @ tail))"
proof (cases rest)
  case Nil
  with vt s(1) show ?thesis by (simp add: scan_Nil)
next
  case (Cons c r)
  then have rest: "rest = c # r" by simp
  consider (opn) "c = CHR ''[''" | (colon) "c = CHR '':''"
    | (other) "c \<noteq> CHR ''[''" "c \<noteq> CHR '':''" by blast
  then show ?thesis
  proof cases
    case colon
    let ?s1 = "s\<lparr>value_template := Some []\<rparr>"
    have 1: "scan_char s c = ?s1" using s colon by (simp add: scan_char_def)
    have "value_template ?s1 = Some []" by simp
    then have 2: "scan ?s1 r = ?s1\<lparr>value_template := Some ([] @ r)\<rparr>" by (rule scan_template)
    have "scan s rest = scan (scan_char s c) r" by (simp add: rest scan_Cons)
    then have "scan s rest = ?s1\<lparr>value_template := Some ([] @ r)\<rparr>" by (simp only: 1 2)
    with s(2) have "field_name (scan s rest) = Some []" by simp
    with fn ne show ?thesis by simp
  next
    case other
    from rest other(1) have h: "[] \<noteq> ([]::string) \<or> rest = [] \<or> hd rest \<noteq> CHR ''[''" by simp
    show ?thesis
    proof (cases "CHR '':'' \<in> set rest")
      case False
      from s(1) s(2) s(3) False h have "value_template (scan s rest) = None"
        by (rule scan_name_no_colon)
      with vt show ?thesis by simp
    next
      case True
      then obtain a b where ab: "rest = a @ CHR '':'' # b" "CHR '':'' \<notin> set a"
        by (auto dest: split_list_first)
      from ab(1) rest other(2) obtain a' where a: "a = c # a'" by (cases a) auto
      with other(1) have h': "[] \<noteq> ([]::string) \<or> a = [] \<or> hd a \<noteq> CHR ''[''" by simp
      from s(1) s(2) s(3) ab(2) h'
      have "field_name (scan s (a @ CHR '':'' # b)) = Some ([] @ a)
            \<and> value_template (scan s (a @ CHR '':'' # b)) = Some b
            \<and> \<not> in_brackets (scan s (a @ CHR '':'' # b))"
        by (rule scan_name_colon)
      with ab(1) fn vt have e: "n = a" "t = b" by simp_all
      from a other(1) have "take 1 a \<noteq> ''[''" by simp
      with e ab have "rest = a @ CHR '':'' # t
           \<and> (CHR '':'' \<notin> set a \<and> take 1 a \<noteq> ''['' \<and> n = a)" by simp
      then show ?thesis by blast
    qed
  next
    case opn
    let ?s1 = "s\<lparr>in_brackets := True\<rparr>"
    have 1: "scan_char s c = ?s1" using s opn by (simp add: scan_char_def)
    show ?thesis
    proof (cases r)
      case Nil
      with rest 1 have "in_brackets (scan s rest)" by (simp add: scan_Cons scan_Nil)
      with ib show ?thesis by simp
    next
      case (Cons d r2)
      then have r: "r = d # r2" by simp
      from reg rest r opn have d: "d \<noteq> CHR ''[''" "d \<noteq> CHR '']''"
        by (simp_all add: irregular_opening_def)
      let ?s2 = "?s1\<lparr>field_name := Some [d]\<rparr>"
      have 2: "scan_char ?s1 d = ?s2" using s d by (simp add: scan_char_def)
      have "scan s rest = scan (scan_char (scan_char s c) d) r2"
        by (simp add: rest r scan_Cons)
      then have eq2: "scan s rest = scan ?s2 r2" by (simp only: 1 2)
      have s2: "value_template ?s2 = None" "field_name ?s2 = Some [d]" "in_brackets ?s2"
        using s by simp_all
      have dne: "[d] \<noteq> []" by simp
      show ?thesis
      proof (cases "CHR '']'' \<in> set r2")
        case False
        have "field_name ?s2 \<noteq> None" by simp
        with s2(3) s2(1) have "in_brackets (scan ?s2 r2)" using False
          by (rule scan_stays_in_brackets)
        with eq2 ib show ?thesis by simp
      next
        case True
        then obtain a b where ab: "r2 = a @ CHR '']'' # b" "CHR '']'' \<notin> set a"
          by (auto dest: split_list_first)
        let ?s3 = "?s2\<lparr>field_name := Some ([d] @ a), in_brackets := False\<rparr>"
        from s2 dne ab(2) have "scan ?s2 (a @ CHR '']'' # b) = scan ?s3 b"
          by (rule scan_bracket_closed)
        with eq2 ab(1) have eq3: "scan s rest = scan ?s3 b" by simp
        have s3: "value_template ?s3 = None" "field_name ?s3 = Some ([d] @ a)"
          "\<not> in_brackets ?s3"
          using s by simp_all
        have h3: "[d] @ a \<noteq> [] \<or> b = [] \<or> hd b \<noteq> CHR ''[''" by simp
        show ?thesis
        proof (cases "CHR '':'' \<in> set b")
          case False
          from s3 False h3 have "value_template (scan ?s3 b) = None"
            by (rule scan_name_no_colon)
          with eq3 vt show ?thesis by simp
        next
          case True
          then obtain tail t' where tl: "b = tail @ CHR '':'' # t'" "CHR '':'' \<notin> set tail"
            by (auto dest: split_list_first)
          have h4: "[d] @ a \<noteq> [] \<or> tail = [] \<or> hd tail \<noteq> CHR ''[''" by simp
          from s3 tl(2) h4
          have "field_name (scan ?s3 (tail @ CHR '':'' # t')) = Some (([d] @ a) @ tail)
            \<and> value_template (scan ?s3 (tail @ CHR '':'' # t')) = Some t'
            \<and> \<not> in_brackets (scan ?s3 (tail @ CHR '':'' # t'))"
            by (rule scan_name_colon)
          with eq3 tl(1) fn vt have e: "n = (d # a) @ tail" "t = t'" by simp_all
          from d(2) ab(2) have nb: "CHR '']'' \<notin> set (d # a)" by simp
          from d(1) have no: "take 1 (d # a) \<noteq> ''[''" by simp
          let ?R = "CHR ''['' # (d # a) @ CHR '']'' # tail"
          from rest r opn ab(1) tl(1) e(2) have whole: "rest = ?R @ CHR '':'' # t" by simp
          have "\<exists>content tail'. ?R = CHR ''['' # content @ CHR '']'' # tail'
                    \<and> content \<noteq> [] \<and> take 1 content \<noteq> ''['' \<and> CHR '']'' \<notin> set content
                    \<and> CHR '':'' \<notin> set tail' \<and> n = content @ tail'"
            using nb no tl(2) e(1)
            by (intro exI [of _ "d # a"] exI [of _ tail]) simp
          with whole show ?thesis by blast
        qed
      qed
    qed
  qed
qed

section \<open>The shapes of the name\<close>

text \<open>
  C5 as stated fails: a name that is not bracketed may hold whitespace, a closing
  bracket, or an opening bracket after its first character.
\<close>

theorem bare_name_shape_counterexample:
  "parse_field_mapping_line ''int a b: x'' = Inr (False, ''int'', ''a b'', ''x'')
   \<and> isspace CHR 0x20 \<and> CHR 0x20 \<in> set ''a b''
   \<and> parse_field_mapping_line ''int a]b[c: x'' = Inr (False, ''int'', ''a]b[c'', ''x'')"
  by code_simp

text \<open>
  C5, amended. Every line that is accepted is, after trimming and without the
  keyword, a type without whitespace, a whitespace character, and a text that either
  opens irregularly or is a name region, a colon and the template. The name region is
  either bare (no colon, no opening bracket at its trimmed start), and the name is the
  trimmed region, which may hold whitespace and brackets inside; or bracketed (an
  opening bracket, contents that are not empty, do not begin with an opening bracket
  and hold no closing bracket, the closing bracket, and a tail without colon), and the
  name is the contents followed by the tail, trimmed. No other shape is accepted.
  The name is never empty and neither begins nor ends with whitespace. Of the names
  of the lines that open irregularly nothing more is said here.
\<close>

theorem accepted_name_region:
  assumes "parse_field_mapping_line line = Inr (nl, ftype, name, tmpl)"
  shows "\<exists>body ty w rest. strip_nullable line = Inr (nl, body) \<and> body = ty @ w # rest
          \<and> list_all (\<lambda>c. \<not> isspace c) ty \<and> isspace w \<and> ftype = lower ty
          \<and> name \<noteq> [] \<and> \<not> isspace (hd name) \<and> \<not> isspace (last name)
          \<and> (irregular_opening rest
             \<or> (\<exists>region t. rest = region @ '':'' @ t \<and> tmpl = strip t
                  \<and> (bare_name region name
                     \<or> (\<exists>content tail. region = ''['' @ content @ '']'' @ tail
                           \<and> bracketed_name content tail name))))"
proof -
  from assms obtain nl' body where sn: "strip_nullable line = Inr (nl', body)"
    and fin: "finish nl' (scan scan_init body) = Inr (nl, ftype, name, tmpl)"
    by (auto simp: parse_field_mapping_line_def split: sum.splits)
  let ?st = "scan scan_init body"
  from finish_accepted [OF fin] obtain n t where nl: "nl = nl'"
    and ft: "ftype = lower (strip (field_type ?st))" and ib: "\<not> in_brackets ?st"
    and n: "field_name ?st = Some n" "n \<noteq> []" "name = strip n" "name \<noteq> []"
    and t: "value_template ?st = Some t" "tmpl = strip t"
    by blast
  have "\<exists>c\<in>set body. isspace c"
  proof (rule ccontr)
    assume "\<not> (\<exists>c\<in>set body. isspace c)"
    then have "\<forall>c\<in>set body. \<not> isspace c" by blast
    then have "field_name ?st = None" by (rule scan_no_space)
    with n(1) show False by simp
  qed
  then have "\<exists>ys x zs. body = ys @ x # zs \<and> isspace x \<and> (\<forall>y\<in>set ys. \<not> isspace y)"
    by (rule split_list_first_prop)
  then obtain ty w rest where b: "body = ty @ w # rest" "isspace w" "\<forall>c\<in>set ty. \<not> isspace c"
    by blast
  let ?s0 = "\<lparr>field_type = ty, field_name = Some [], value_template = None,
              in_brackets = False\<rparr>"
  from b(3,2) have "scan scan_init (ty @ w # rest) = scan ?s0 rest" by (rule scan_to_name)
  with b(1) have st: "?st = scan ?s0 rest" by simp
  have "field_name ?s0 \<noteq> None" by simp
  then have "field_type (scan ?s0 rest) = field_type ?s0
      \<and> field_name (scan ?s0 rest) \<noteq> None"
    by (rule scan_keeps_type)
  with st have fty: "field_type ?st = ty" by simp
  have "strip ty = ty"
  proof (cases "ty = []")
    case True
    then show ?thesis by (simp add: strip_def)
  next
    case False
    from False b(3) show ?thesis by (rule strip_plain)
  qed
  with ft fty have ftype: "ftype = lower ty" by simp
  have shape: "irregular_opening rest
             \<or> (\<exists>region t. rest = region @ '':'' @ t \<and> tmpl = strip t
                  \<and> (bare_name region name
                     \<or> (\<exists>content tail. region = ''['' @ content @ '']'' @ tail
                           \<and> bracketed_name content tail name)))"
  proof (cases "irregular_opening rest")
    case True
    then show ?thesis by blast
  next
    case False
    have s1: "value_template ?s0 = None" and s2: "field_name ?s0 = Some []"
      and s3: "\<not> in_brackets ?s0" by simp_all
    from n(1) st have fn': "field_name (scan ?s0 rest) = Some n" by simp
    from t(1) st have vt': "value_template (scan ?s0 rest) = Some t" by simp
    from ib st have ib': "\<not> in_brackets (scan ?s0 rest)" by simp
    from name_region_cases [OF s1 s2 s3 fn' vt' ib' n(2) False]
    obtain region where r: "rest = region @ CHR '':'' # t"
      and cs: "(CHR '':'' \<notin> set region \<and> take 1 region \<noteq> ''['' \<and> n = region)
              \<or> (\<exists>content tail. region = CHR ''['' # content @ CHR '']'' # tail
                    \<and> content \<noteq> [] \<and> take 1 content \<noteq> ''['' \<and> CHR '']'' \<notin> set content
                    \<and> CHR '':'' \<notin> set tail \<and> n = content @ tail)"
      by blast
    from cs have "bare_name region name
                     \<or> (\<exists>content tail. region = ''['' @ content @ '']'' @ tail
                           \<and> bracketed_name content tail name)"
    proof
      assume a: "CHR '':'' \<notin> set region \<and> take 1 region \<noteq> ''['' \<and> n = region"
      with n(2) have rne: "region \<noteq> []" by simp
      have "take 1 (strip region) \<noteq> ''[''"
      proof
        assume "take 1 (strip region) = ''[''"
        with strip_first [of region] have e: "take 1 (dropWhile isspace region) = ''[''"
          by simp
        have dne: "dropWhile isspace region \<noteq> []"
        proof
          assume z: "dropWhile isspace region = []"
          from e show False unfolding z by simp
        qed
        then have "\<not> isspace (hd (dropWhile isspace region))" by (rule hd_dropWhile)
        moreover from dne have "hd (dropWhile isspace region) \<in> set region"
          by (metis hd_in_set set_dropWhileD)
        ultimately have "dropWhile isspace (region @ CHR '':'' # t)
            = dropWhile isspace region @ CHR '':'' # t"
          by (metis dropWhile_append1)
        with dne e r have "take 1 (dropWhile isspace rest) = ''[''"
          by (cases "dropWhile isspace region") simp_all
        moreover from rne a r have "take 1 rest \<noteq> ''[''" by (cases region) simp_all
        ultimately have "irregular_opening rest" by (simp add: irregular_opening_def)
        with False show False by simp
      qed
      with a n(3) have "bare_name region name" by (simp add: bare_name_def)
      then show ?thesis by blast
    next
      assume "\<exists>content tail. region = CHR ''['' # content @ CHR '']'' # tail
                    \<and> content \<noteq> [] \<and> take 1 content \<noteq> ''['' \<and> CHR '']'' \<notin> set content
                    \<and> CHR '':'' \<notin> set tail \<and> n = content @ tail"
      then obtain content tail where c: "region = CHR ''['' # content @ CHR '']'' # tail"
        "content \<noteq> []" "take 1 content \<noteq> ''[''" "CHR '']'' \<notin> set content"
        "CHR '':'' \<notin> set tail" "n = content @ tail"
        by blast
      from c(2-6) n(3) have "bracketed_name content tail name" by (simp add: bracketed_name_def)
      moreover from c(1) have "region = ''['' @ content @ '']'' @ tail" by simp
      ultimately show ?thesis by blast
    qed
    moreover from r have "rest = region @ '':'' @ t" by simp
    ultimately show ?thesis using t(2) by blast
  qed
  from n(3,4) have "strip n \<noteq> []" by simp
  from strip_hd_last [OF this] n(3)
  have ends: "\<not> isspace (hd name)" "\<not> isspace (last name)" by simp_all
  from sn nl b(1,2) b(3) ftype n(4) ends shape
  have "strip_nullable line = Inr (nl, body) \<and> body = ty @ w # rest
          \<and> list_all (\<lambda>c. \<not> isspace c) ty \<and> isspace w \<and> ftype = lower ty
          \<and> name \<noteq> [] \<and> \<not> isspace (hd name) \<and> \<not> isspace (last name)
          \<and> (irregular_opening rest
             \<or> (\<exists>region t. rest = region @ '':'' @ t \<and> tmpl = strip t
                  \<and> (bare_name region name
                     \<or> (\<exists>content tail. region = ''['' @ content @ '']'' @ tail
                           \<and> bracketed_name content tail name))))"
    by (simp add: list_all_iff)
  then show ?thesis by blast
qed

theorem accepted_name_region_witness:
  "parse_field_mapping_line ''int [a b]c: x'' = Inr (False, ''int'', ''a bc'', ''x'')
   \<and> (\<exists>body ty w rest. strip_nullable ''int [a b]c: x'' = Inr (False, body)
          \<and> body = ty @ w # rest
          \<and> list_all (\<lambda>c. \<not> isspace c) ty \<and> isspace w \<and> ''int'' = lower ty
          \<and> ''a bc'' \<noteq> [] \<and> \<not> isspace (hd ''a bc'') \<and> \<not> isspace (last ''a bc'')
          \<and> (irregular_opening rest
             \<or> (\<exists>region t. rest = region @ '':'' @ t \<and> ''x'' = strip t
                  \<and> (bare_name region ''a bc''
                     \<or> (\<exists>content tail. region = ''['' @ content @ '']'' @ tail
                           \<and> bracketed_name content tail ''a bc'')))))
   \<and> strip_nullable ''int [a b]c: x'' = Inr (False, ''int'' @ CHR 0x20 # ''[a b]c: x'')
   \<and> \<not> irregular_opening ''[a b]c: x''
   \<and> ''[a b]c: x'' = ''[a b]c'' @ '':'' @ '' x''
   \<and> ''[a b]c'' = ''['' @ ''a b'' @ '']'' @ ''c''
   \<and> bracketed_name ''a b'' ''c'' ''a bc''
   \<and> \<not> bare_name ''[a b]c'' ''a bc''"
proof -
  have h: "parse_field_mapping_line ''int [a b]c: x'' = Inr (False, ''int'', ''a bc'', ''x'')"
    by code_simp
  have 1: "strip_nullable ''int [a b]c: x'' = Inr (False, ''int'' @ CHR 0x20 # ''[a b]c: x'')"
    by code_simp
  have 2: "\<not> irregular_opening ''[a b]c: x''" by code_simp
  have 3: "''[a b]c: x'' = ''[a b]c'' @ '':'' @ '' x''" by simp
  have 4: "''[a b]c'' = ''['' @ ''a b'' @ '']'' @ ''c''" by simp
  have 5: "bracketed_name ''a b'' ''c'' ''a bc''" by code_simp
  have 6: "\<not> bare_name ''[a b]c'' ''a bc''" by code_simp
  from accepted_name_region [OF h] h 1 2 3 4 5 6 show ?thesis by blast
qed

text \<open>
  The two shapes on examples: a bare name with whitespace and brackets inside, a
  bracketed name with a colon inside, and a bracketed name followed by a tail.
\<close>

lemma name_region_examples:
  "parse_field_mapping_line ''int a b: x'' = Inr (False, ''int'', ''a b'', ''x'')"
  "bare_name ''a b'' ''a b''"
  "parse_field_mapping_line ''int [a: b]: x'' = Inr (False, ''int'', ''a: b'', ''x'')"
  "bracketed_name ''a: b'' [] ''a: b''"
  "parse_field_mapping_line ''int [a][b]: x'' = Inr (False, ''int'', ''a[b]'', ''x'')"
  "bracketed_name ''a'' ''[b]'' ''a[b]''"
  by code_simp+

section \<open>Well-formed lines\<close>

lemma scan_line_shape:
  assumes ty: "\<forall>c\<in>set ty. \<not> isspace c" and w: "isspace w"
    and name: "scan \<lparr>field_type = ty, field_name = Some [], value_template = None,
                      in_brackets = False\<rparr> xs
               = \<lparr>field_type = ty, field_name = Some m, value_template = None,
                  in_brackets = False\<rparr>"
  shows "scan scan_init (ty @ w # xs @ CHR '':'' # rest)
         = \<lparr>field_type = ty, field_name = Some m, value_template = Some rest,
            in_brackets = False\<rparr>"
proof -
  have 1: "scan scan_init ty
           = \<lparr>field_type = ty, field_name = None, value_template = None, in_brackets = False\<rparr>"
    using scan_type [of scan_init ty] ty by (simp add: scan_init_def)
  have 2: "scan_char \<lparr>field_type = ty, field_name = None, value_template = None,
                       in_brackets = False\<rparr> w
           = \<lparr>field_type = ty, field_name = Some [], value_template = None,
              in_brackets = False\<rparr>"
    using w by (simp add: scan_char_def)
  have 3: "scan_char \<lparr>field_type = ty, field_name = Some m, value_template = None,
                       in_brackets = False\<rparr> CHR '':''
           = \<lparr>field_type = ty, field_name = Some m, value_template = Some [],
              in_brackets = False\<rparr>"
    by (simp add: scan_char_def)
  have 4: "scan \<lparr>field_type = ty, field_name = Some m, value_template = Some [],
                  in_brackets = False\<rparr> rest
           = \<lparr>field_type = ty, field_name = Some m, value_template = Some rest,
              in_brackets = False\<rparr>"
    by (simp add: scan_template)
  have "scan scan_init (ty @ w # xs @ CHR '':'' # rest)
        = scan (scan_char (scan (scan_char (scan scan_init ty) w) xs) CHR '':'') rest"
    by (simp add: scan_append scan_Cons)
  then show ?thesis by (simp add: 1 2 name 3 4)
qed

lemma scan_bare_name:
  assumes ws: "\<forall>c\<in>set ws. isspace c"
    and n: "\<forall>c\<in>set n. \<not> isspace c \<and> c \<noteq> CHR ''['' \<and> c \<noteq> CHR '']'' \<and> c \<noteq> CHR '':''"
  shows "scan \<lparr>field_type = ty, field_name = Some [], value_template = None,
                in_brackets = False\<rparr> (ws @ n)
         = \<lparr>field_type = ty, field_name = Some (ws @ n), value_template = None,
            in_brackets = False\<rparr>"
proof -
  let ?st = "\<lparr>field_type = ty, field_name = Some [], value_template = None,
              in_brackets = False\<rparr>"
  have p: "c \<noteq> CHR '':'' \<and> c \<noteq> CHR ''[''" if "c \<in> set (ws @ n)" for c
  proof (cases "c \<in> set ws")
    case True
    with ws have "isspace c" by blast
    then show ?thesis by (simp add: isspace_not_punct)
  next
    case False
    with that have "c \<in> set n" by simp
    with n show ?thesis by blast
  qed
  then have a: "\<forall>c\<in>set (ws @ n). c \<noteq> CHR '':''" by blast
  have b: "[] \<noteq> ([]::string) \<or> ws @ n = [] \<or> hd (ws @ n) \<noteq> CHR ''[''"
  proof (cases "ws @ n")
    case Nil
    then show ?thesis by blast
  next
    case (Cons c cs)
    then have "c \<in> set (ws @ n)" by simp
    then have "c \<noteq> CHR ''[''" using p by blast
    with Cons show ?thesis by simp
  qed
  have v: "value_template ?st = None" by simp
  have f: "field_name ?st = Some []" by simp
  have i: "\<not> in_brackets ?st" by simp
  have "scan ?st (ws @ n) = ?st\<lparr>field_name := Some ([] @ (ws @ n))\<rparr>"
    using v f i a b by (rule scan_name_outside)
  then show ?thesis by simp
qed

text \<open>
  After a second whitespace character the name is no longer empty, so an opening
  bracket is a character of the name like any other: up to the colon, everything
  joins the name.
\<close>

lemma scan_after_blank:
  assumes ws: "ws \<noteq> []" "\<forall>c\<in>set ws. isspace c" and m: "\<forall>c\<in>set m. c \<noteq> CHR '':''"
  shows "scan \<lparr>field_type = ty, field_name = Some [], value_template = None,
                in_brackets = False\<rparr> (ws @ m)
         = \<lparr>field_type = ty, field_name = Some (ws @ m), value_template = None,
            in_brackets = False\<rparr>"
proof -
  let ?st = "\<lparr>field_type = ty, field_name = Some [], value_template = None,
              in_brackets = False\<rparr>"
  have a: "\<forall>c\<in>set (ws @ m). c \<noteq> CHR '':''"
  proof
    fix c assume "c \<in> set (ws @ m)"
    then consider "c \<in> set ws" | "c \<in> set m" by auto
    then show "c \<noteq> CHR '':''"
    proof cases
      case 1
      with ws(2) have "isspace c" by blast
      then show ?thesis by (simp add: isspace_not_punct)
    next
      case 2
      with m show ?thesis by blast
    qed
  qed
  from ws obtain w r where w: "ws = w # r" "isspace w" by (cases ws) auto
  from w(2) have "w \<noteq> CHR ''[''" by (simp add: isspace_not_punct)
  with w(1) have b: "[] \<noteq> ([]::string) \<or> ws @ m = [] \<or> hd (ws @ m) \<noteq> CHR ''[''" by simp
  have v: "value_template ?st = None" by simp
  have f: "field_name ?st = Some []" by simp
  have i: "\<not> in_brackets ?st" by simp
  have "scan ?st (ws @ m) = ?st\<lparr>field_name := Some ([] @ (ws @ m))\<rparr>"
    using v f i a b by (rule scan_name_outside)
  then show ?thesis by simp
qed

lemma scan_bracketed_name:
  assumes "\<forall>c\<in>set n. c \<noteq> CHR '']''" and "n \<noteq> []" and "hd n \<noteq> CHR ''[''"
  shows "scan \<lparr>field_type = ty, field_name = Some [], value_template = None,
                in_brackets = False\<rparr> (CHR ''['' # n @ '']'')
         = \<lparr>field_type = ty, field_name = Some n, value_template = None,
            in_brackets = False\<rparr>"
proof -
  have 1: "scan_char \<lparr>field_type = ty, field_name = Some [], value_template = None,
                       in_brackets = False\<rparr> CHR ''[''
           = \<lparr>field_type = ty, field_name = Some [], value_template = None,
              in_brackets = True\<rparr>"
    by (simp add: scan_char_def)
  let ?st = "\<lparr>field_type = ty, field_name = Some [], value_template = None,
              in_brackets = True\<rparr>"
  have b: "[] \<noteq> ([]::string) \<or> n = [] \<or> hd n \<noteq> CHR ''[''" using assms(3) by blast
  have v: "value_template ?st = None" by simp
  have f: "field_name ?st = Some []" by simp
  have i: "in_brackets ?st" by simp
  have "scan ?st n = ?st\<lparr>field_name := Some ([] @ n)\<rparr>"
    using v f i assms(1) b by (rule scan_name_inside)
  then have 2: "scan \<lparr>field_type = ty, field_name = Some [], value_template = None,
                  in_brackets = True\<rparr> n
           = \<lparr>field_type = ty, field_name = Some n, value_template = None,
              in_brackets = True\<rparr>"
    by simp
  have 3: "scan_char \<lparr>field_type = ty, field_name = Some n, value_template = None,
                       in_brackets = True\<rparr> CHR '']''
           = \<lparr>field_type = ty, field_name = Some n, value_template = None,
              in_brackets = False\<rparr>"
    by (simp add: scan_char_def)
  have "scan \<lparr>field_type = ty, field_name = Some [], value_template = None,
                in_brackets = False\<rparr> (CHR ''['' # n @ '']'')
        = scan_char (scan (scan_char \<lparr>field_type = ty, field_name = Some [],
            value_template = None, in_brackets = False\<rparr> CHR ''['') n) CHR '']''"
    by (simp add: scan_append scan_Cons scan_Nil)
  then show ?thesis by (simp add: 1 2 3)
qed


lemma TYPE_MAP_known: "TYPE_MAP t \<noteq> None \<Longrightarrow> t \<noteq> [] \<and> t \<noteq> ''nullable''"
  by (auto simp: TYPE_MAP_def)

lemma finish_ok:
  assumes ty: "\<forall>c\<in>set ty. \<not> isspace c" and known: "TYPE_MAP (lower ty) \<noteq> None"
    and ws: "\<forall>c\<in>set ws. isspace c"
    and n: "n \<noteq> []" "\<not> isspace (hd n)" "\<not> isspace (last n)"
    and sp: "\<forall>c\<in>set sp3. isspace c"
    and t: "tmpl \<noteq> []" "\<not> isspace (hd tmpl)" "\<not> isspace (last tmpl)"
  shows "finish nl \<lparr>field_type = ty, field_name = Some (ws @ n),
                     value_template = Some (sp3 @ tmpl), in_brackets = False\<rparr>
         = Inr (nl, lower ty, n, tmpl)"
proof -
  from TYPE_MAP_known [OF known] have tyne: "ty \<noteq> []" by (auto simp: lower_def)
  with ty have 1: "strip ty = ty" by (simp add: strip_plain)
  from tyne have 2: "lower ty \<noteq> []" by (simp add: lower_def)
  from ws n have 3: "strip (ws @ n) = n" by (rule strip_lead)
  from sp t have 4: "strip (sp3 @ tmpl) = tmpl" by (rule strip_lead)
  from n(1) t(1) 1 2 3 4 known show ?thesis
    by (simp add: finish_def Let_def strip_if_truthy_def truthy_def)
qed

lemma strip_nullable_plain:
  assumes lead: "\<forall>c\<in>set lead. isspace c" and trail: "\<forall>c\<in>set trail. isspace c"
    and tok: "tok \<noteq> []" "\<forall>c\<in>set tok. \<not> isspace c" and w: "isspace w"
    and l: "\<not> isspace (last (tok @ w # r))"
    and k: "lower tok \<noteq> ''nullable''"
  shows "strip_nullable (lead @ (tok @ w # r) @ trail) = Inr (False, tok @ w # r)"
proof -
  let ?m = "tok @ w # r"
  from tok have h: "\<not> isspace (hd ?m)" by (cases tok) simp_all
  have ne: "?m \<noteq> []" by simp
  from lead trail ne h l have s: "strip (lead @ ?m @ trail) = ?m" by (rule strip_trimmed)
  from tok w have sp: "split ?m = tok # split r" by (rule split_first)
  from s sp k show ?thesis by (simp add: strip_nullable_def)
qed

lemma strip_nullable_keyword:
  assumes lead: "\<forall>c\<in>set lead. isspace c" and trail: "\<forall>c\<in>set trail. isspace c"
    and kw: "lower kw = ''nullable''"
    and sp1: "sp1 \<noteq> []" "\<forall>c\<in>set sp1. isspace c"
    and m: "m \<noteq> []" "\<not> isspace (hd m)" "\<not> isspace (last m)"
  shows "strip_nullable (lead @ (kw @ sp1 @ m) @ trail) = Inr (True, m)"
proof -
  let ?l = "kw @ sp1 @ m"
  from keyword_no_space [OF kw] have len: "length kw = 8" and kne: "kw \<noteq> []"
    and kns: "\<forall>c\<in>set kw. \<not> isspace c" by simp_all
  from kne kns have h: "\<not> isspace (hd ?l)" by (cases kw) simp_all
  from m(1,3) have la: "\<not> isspace (last ?l)" by simp
  from kne have ne: "?l \<noteq> []" by simp
  from lead trail ne h la have s: "strip (lead @ ?l @ trail) = ?l" by (rule strip_trimmed)
  from sp1 obtain w ws where w: "sp1 = w # ws" "isspace w" by (cases sp1) auto
  from kne kns w(2) have "split (kw @ w # (ws @ m)) = kw # split (ws @ m)" by (rule split_first)
  with w(1) have sp: "split ?l = kw # split (ws @ m)" by simp
  from len have d: "drop 8 ?l = sp1 @ m" by simp
  from sp1(2) m have t: "strip (sp1 @ m) = m" by (rule strip_lead)
  from s sp kw d t show ?thesis by (simp add: strip_nullable_def)
qed

lemma body_scanned:
  assumes ty: "\<forall>c\<in>set ty. \<not> isspace c" and known: "TYPE_MAP (lower ty) \<noteq> None"
    and w: "isspace w" and ws: "\<forall>c\<in>set ws. isspace c"
    and name: "scan \<lparr>field_type = ty, field_name = Some [], value_template = None,
                      in_brackets = False\<rparr> xs
               = \<lparr>field_type = ty, field_name = Some (ws @ n), value_template = None,
                  in_brackets = False\<rparr>"
    and n: "n \<noteq> []" "\<not> isspace (hd n)" "\<not> isspace (last n)"
    and sp: "\<forall>c\<in>set sp3. isspace c"
    and t: "tmpl \<noteq> []" "\<not> isspace (hd tmpl)" "\<not> isspace (last tmpl)"
  shows "finish nl (scan scan_init (ty @ w # xs @ CHR '':'' # sp3 @ tmpl))
         = Inr (nl, lower ty, n, tmpl)"
proof -
  from ty w name
  have "scan scan_init (ty @ w # xs @ CHR '':'' # (sp3 @ tmpl))
        = \<lparr>field_type = ty, field_name = Some (ws @ n), value_template = Some (sp3 @ tmpl),
           in_brackets = False\<rparr>"
    by (rule scan_line_shape)
  moreover from ty known ws n sp t
  have "finish nl \<lparr>field_type = ty, field_name = Some (ws @ n),
                     value_template = Some (sp3 @ tmpl), in_brackets = False\<rparr>
         = Inr (nl, lower ty, n, tmpl)"
    by (rule finish_ok)
  ultimately show ?thesis by simp
qed

lemma line_parsed:
  assumes pre: "(kw = [] \<and> sp1 = []) \<or> (lower kw = ''nullable'' \<and> sp1 \<noteq> [] \<and> (\<forall>c\<in>set sp1. isspace c))"
    and ty: "\<forall>c\<in>set ty. \<not> isspace c" and known: "TYPE_MAP (lower ty) \<noteq> None"
    and w: "isspace w" and ws: "\<forall>c\<in>set ws. isspace c"
    and name: "scan \<lparr>field_type = ty, field_name = Some [], value_template = None,
                      in_brackets = False\<rparr> xs
               = \<lparr>field_type = ty, field_name = Some (ws @ n), value_template = None,
                  in_brackets = False\<rparr>"
    and n: "n \<noteq> []" "\<not> isspace (hd n)" "\<not> isspace (last n)"
    and sp: "\<forall>c\<in>set sp3. isspace c"
    and t: "tmpl \<noteq> []" "\<not> isspace (hd tmpl)" "\<not> isspace (last tmpl)"
    and lead: "\<forall>c\<in>set lead. isspace c" and trail: "\<forall>c\<in>set trail. isspace c"
  shows "parse_field_mapping_line (lead @ (kw @ sp1 @ ty @ w # xs @ CHR '':'' # sp3 @ tmpl) @ trail)
         = Inr (kw \<noteq> [], lower ty, n, tmpl)"
proof -
  let ?r = "xs @ CHR '':'' # sp3 @ tmpl"
  let ?m = "ty @ w # ?r"
  from TYPE_MAP_known [OF known] have tyne: "ty \<noteq> []" and notkw: "lower ty \<noteq> ''nullable''"
    by (auto simp: lower_def)
  have fin: "finish nl (scan scan_init ?m) = Inr (nl, lower ty, n, tmpl)" for nl
    using ty known w ws name n sp t by (rule body_scanned)
  from t(1,3) have la: "\<not> isspace (last ?m)" by simp
  from tyne ty have h: "\<not> isspace (hd ?m)" by (cases ty) simp_all
  have ne: "?m \<noteq> []" by simp
  from pre show ?thesis
  proof
    assume a: "kw = [] \<and> sp1 = []"
    from lead trail tyne ty w la notkw
    have "strip_nullable (lead @ ?m @ trail) = Inr (False, ?m)" by (rule strip_nullable_plain)
    with a fin [of False] show ?thesis by (simp add: parse_field_mapping_line_def)
  next
    assume a: "lower kw = ''nullable'' \<and> sp1 \<noteq> [] \<and> (\<forall>c\<in>set sp1. isspace c)"
    then have k: "lower kw = ''nullable''" and s1: "sp1 \<noteq> []" and s2: "\<forall>c\<in>set sp1. isspace c"
      by simp_all
    from k have kne: "kw \<noteq> []" by (auto simp: lower_def)
    from lead trail k s1 s2 ne h la
    have "strip_nullable (lead @ (kw @ sp1 @ ?m) @ trail) = Inr (True, ?m)"
      by (rule strip_nullable_keyword)
    with kne fin [of True] show ?thesis by (simp add: parse_field_mapping_line_def)
  qed
qed

text \<open>
  Where the scanner follows the grammar: a line of the grammar, with any whitespace
  before and after it, whose bracketed name (if the name is bracketed) follows the
  type after one whitespace character and neither begins with an opening bracket nor
  begins or ends with whitespace, is parsed into the declared nullable flag, the type
  name in lower case, the field name and the template. A bare name may follow any
  amount of whitespace.
\<close>

lemma parse_recovers_declared:
  assumes wf: "spec_well_formed kw sp1 ty sp2 region sp3 tmpl"
    and bp: "bracket_placed sp2 region"
    and lead: "list_all isspace lead" and trail: "list_all isspace trail"
  shows "parse_field_mapping_line (lead @ spec_mapping_line kw sp1 ty sp2 region sp3 tmpl @ trail)
         = Inr (kw \<noteq> [], lower ty, region_name region, tmpl)"
proof -
  from wf have pre: "(kw = [] \<and> sp1 = [])
        \<or> (lower kw = ''nullable'' \<and> sp1 \<noteq> [] \<and> (\<forall>c\<in>set sp1. isspace c))"
    and ty: "\<forall>c\<in>set ty. \<not> isspace c" and known: "TYPE_MAP (lower ty) \<noteq> None"
    and sp2: "sp2 \<noteq> []" "\<forall>c\<in>set sp2. isspace c"
    and sp: "\<forall>c\<in>set sp3. isspace c"
    and t: "tmpl \<noteq> []" "\<not> isspace (hd tmpl)" "\<not> isspace (last tmpl)"
    by (simp_all add: spec_well_formed_def list_all_iff)
  from lead trail have lead': "\<forall>c\<in>set lead. isspace c" and trail': "\<forall>c\<in>set trail. isspace c"
    by (simp_all add: list_all_iff)
  from sp2 obtain w ws where w: "sp2 = w # ws" "isspace w" "\<forall>c\<in>set ws. isspace c"
    by (cases sp2) auto
  show ?thesis
  proof (cases region)
    case (Bare n)
    with wf have n: "n \<noteq> []"
      "\<forall>c\<in>set n. \<not> isspace c \<and> c \<noteq> CHR ''['' \<and> c \<noteq> CHR '']'' \<and> c \<noteq> CHR '':''"
      by (simp_all add: spec_well_formed_def list_all_iff)
    from n have ends: "\<not> isspace (hd n)" "\<not> isspace (last n)" by simp_all
    from w(3) n(2)
    have name: "scan \<lparr>field_type = ty, field_name = Some [], value_template = None,
                      in_brackets = False\<rparr> (ws @ n)
               = \<lparr>field_type = ty, field_name = Some (ws @ n), value_template = None,
                  in_brackets = False\<rparr>"
      by (rule scan_bare_name)
    from pre ty known w(2) w(3) name n(1) ends sp t lead' trail'
    have "parse_field_mapping_line
            (lead @ (kw @ sp1 @ ty @ w # (ws @ n) @ CHR '':'' # sp3 @ tmpl) @ trail)
          = Inr (kw \<noteq> [], lower ty, n, tmpl)"
      by (rule line_parsed)
    with Bare w(1) show ?thesis by (simp add: spec_mapping_line_def)
  next
    case (Bracketed n)
    with wf have n: "n \<noteq> []" "\<forall>c\<in>set n. c \<noteq> CHR '']''"
      by (simp_all add: spec_well_formed_def list_all_iff)
    from Bracketed bp have one: "length sp2 = 1" and opn: "hd n \<noteq> CHR ''[''"
      and ends: "\<not> isspace (hd n)" "\<not> isspace (last n)"
      by (simp_all add: bracket_placed_def)
    from one w(1) have wsn: "ws = []" by simp
    from n(2) n(1) opn
    have "scan \<lparr>field_type = ty, field_name = Some [], value_template = None,
                      in_brackets = False\<rparr> (CHR ''['' # n @ '']'')
               = \<lparr>field_type = ty, field_name = Some n, value_template = None,
                  in_brackets = False\<rparr>"
      by (rule scan_bracketed_name)
    then have name: "scan \<lparr>field_type = ty, field_name = Some [], value_template = None,
                      in_brackets = False\<rparr> (CHR ''['' # n @ '']'')
               = \<lparr>field_type = ty, field_name = Some ([] @ n), value_template = None,
                  in_brackets = False\<rparr>"
      by simp
    have e: "\<forall>c\<in>set ([]::string). isspace c" by simp
    from pre ty known w(2) e name n(1) ends sp t lead' trail'
    have "parse_field_mapping_line
            (lead @ (kw @ sp1 @ ty @ w # (CHR ''['' # n @ '']'') @ CHR '':'' # sp3 @ tmpl) @ trail)
          = Inr (kw \<noteq> [], lower ty, n, tmpl)"
      by (rule line_parsed)
    with Bracketed w(1) wsn show ?thesis by (simp add: spec_mapping_line_def)
  qed
qed

text \<open>The example of the specification is such a line.\<close>

lemma parse_full_name_example:
  "parse_field_mapping_line ''nullable string [Full Name]: {first} {last}''
     = Inr (True, ''string'', ''Full Name'', ''{first} {last}'')"
proof -
  have h1: "spec_well_formed ''nullable'' [CHR 0x20] ''string'' [CHR 0x20]
      (Bracketed ''Full Name'') [CHR 0x20] ''{first} {last}''"
    by code_simp
  have h2: "bracket_placed [CHR 0x20] (Bracketed ''Full Name'')" by code_simp
  have h3: "list_all isspace []" by simp
  have l: "lower ''string'' = ''string''" by code_simp
  have m: "spec_mapping_line ''nullable'' [CHR 0x20] ''string'' [CHR 0x20]
      (Bracketed ''Full Name'') [CHR 0x20] ''{first} {last}''
      = ''nullable string [Full Name]: {first} {last}''"
    by (simp add: spec_mapping_line_def)
  from parse_recovers_declared [OF h1 h2 h3 h3] l m show ?thesis by simp
qed

section \<open>A bracket after more than one whitespace character\<close>

text \<open>
  The scanner takes an opening bracket for the start of a bracketed name only while
  the name collected so far is empty (\<open>not field_name and char == '['\<close>). The first
  whitespace character after the type starts the name; a second one is already
  appended to it. From then on brackets are characters of the name.
\<close>

text \<open>
  C3. A line of the grammar with a bracketed name that holds no colon, written with
  two or more whitespace characters between the type and the opening bracket, is
  accepted, and the name returned is the bracketed region with its brackets: not the
  declared name.
\<close>

theorem brackets_kept_after_blanks:
  assumes wf: "spec_well_formed kw sp1 ty sp2 (Bracketed n) sp3 tmpl"
    and two: "2 \<le> length sp2" and nc: "CHR '':'' \<notin> set n"
    and lead: "list_all isspace lead" and trail: "list_all isspace trail"
  shows "parse_field_mapping_line
           (lead @ spec_mapping_line kw sp1 ty sp2 (Bracketed n) sp3 tmpl @ trail)
         = Inr (kw \<noteq> [], lower ty, ''['' @ n @ '']'', tmpl)
       \<and> ''['' @ n @ '']'' \<noteq> region_name (Bracketed n)"
proof -
  from wf have pre: "(kw = [] \<and> sp1 = [])
        \<or> (lower kw = ''nullable'' \<and> sp1 \<noteq> [] \<and> (\<forall>c\<in>set sp1. isspace c))"
    and ty: "\<forall>c\<in>set ty. \<not> isspace c" and known: "TYPE_MAP (lower ty) \<noteq> None"
    and sp2: "\<forall>c\<in>set sp2. isspace c"
    and sp: "\<forall>c\<in>set sp3. isspace c"
    and t: "tmpl \<noteq> []" "\<not> isspace (hd tmpl)" "\<not> isspace (last tmpl)"
    by (simp_all add: spec_well_formed_def list_all_iff)
  from lead trail have lead': "\<forall>c\<in>set lead. isspace c" and trail': "\<forall>c\<in>set trail. isspace c"
    by (simp_all add: list_all_iff)
  from two obtain w ws where w0: "sp2 = w # ws" and wsne: "ws \<noteq> []"
    by (cases sp2; cases "tl sp2") auto
  from w0 sp2 have w: "isspace w" and ws: "\<forall>c\<in>set ws. isspace c" by simp_all
  let ?m = "CHR ''['' # n @ '']''"
  from nc have m: "\<forall>c\<in>set ?m. c \<noteq> CHR '':''" by auto
  from wsne ws m
  have name: "scan \<lparr>field_type = ty, field_name = Some [], value_template = None,
                in_brackets = False\<rparr> (ws @ ?m)
         = \<lparr>field_type = ty, field_name = Some (ws @ ?m), value_template = None,
            in_brackets = False\<rparr>"
    by (rule scan_after_blank)
  have ne: "?m \<noteq> []" by simp
  have h: "\<not> isspace (hd ?m)" by (simp add: isspace_def)
  have l: "\<not> isspace (last ?m)" by (simp add: isspace_def)
  from pre ty known w ws name ne h l sp t lead' trail'
  have "parse_field_mapping_line
          (lead @ (kw @ sp1 @ ty @ w # (ws @ ?m) @ CHR '':'' # sp3 @ tmpl) @ trail)
        = Inr (kw \<noteq> [], lower ty, ?m, tmpl)"
    by (rule line_parsed)
  with w0 show ?thesis by (simp add: spec_mapping_line_def)
qed

theorem brackets_kept_after_blanks_witness:
  "spec_well_formed [] [] ''string'' [CHR 0x20, CHR 0x20] (Bracketed ''Full Name'') [CHR 0x20] ''{x}''
   \<and> 2 \<le> length [CHR 0x20, CHR 0x20]
   \<and> CHR '':'' \<notin> set ''Full Name''
   \<and> spec_mapping_line [] [] ''string'' [CHR 0x20, CHR 0x20] (Bracketed ''Full Name'') [CHR 0x20] ''{x}''
       = ''string  [Full Name]: {x}''
   \<and> parse_field_mapping_line ''string  [Full Name]: {x}''
       = Inr (False, ''string'', ''[Full Name]'', ''{x}'')
   \<and> ''[Full Name]'' \<noteq> region_name (Bracketed ''Full Name'')"
proof -
  have h1: "spec_well_formed [] [] ''string'' [CHR 0x20, CHR 0x20] (Bracketed ''Full Name'')
      [CHR 0x20] ''{x}''"
    by code_simp
  have h2: "2 \<le> length [CHR 0x20, CHR 0x20]" by simp
  have h3: "CHR '':'' \<notin> set ''Full Name''" by simp
  have h4: "list_all isspace []" by simp
  have l: "lower ''string'' = ''string''" by code_simp
  have m: "spec_mapping_line [] [] ''string'' [CHR 0x20, CHR 0x20] (Bracketed ''Full Name'')
      [CHR 0x20] ''{x}'' = ''string  [Full Name]: {x}''"
    by (simp add: spec_mapping_line_def)
  from brackets_kept_after_blanks [OF h1 h2 h3 h4 h4] h1 h2 h3 l m show ?thesis by simp
qed

text \<open>
  C4. A line in which two or more whitespace characters separate the type from an
  opening bracket that no closing bracket follows is accepted: the colon ends the
  name, which keeps the opening bracket, and the rest is the template.
\<close>

theorem unmatched_bracket_accepted:
  assumes ty: "list_all (\<lambda>c. \<not> isspace c) ty" and known: "TYPE_MAP (lower ty) \<noteq> None"
    and sp2: "list_all isspace sp2" "2 \<le> length sp2"
    and n: "list_all (\<lambda>c. c \<noteq> CHR '':'' \<and> c \<noteq> CHR '']'') n" "\<not> isspace (last (''['' @ n))"
    and sp3: "list_all isspace sp3"
    and t: "tmpl \<noteq> []" "\<not> isspace (hd tmpl)" "\<not> isspace (last tmpl)" "CHR '']'' \<notin> set tmpl"
  shows "parse_field_mapping_line (ty @ sp2 @ ''['' @ n @ '':'' @ sp3 @ tmpl)
         = Inr (False, lower ty, ''['' @ n, tmpl)
       \<and> CHR '']'' \<notin> set (n @ '':'' @ sp3 @ tmpl)"
proof -
  from ty sp2(1) sp3 have ty': "\<forall>c\<in>set ty. \<not> isspace c" and sp2': "\<forall>c\<in>set sp2. isspace c"
    and sp3': "\<forall>c\<in>set sp3. isspace c"
    by (simp_all add: list_all_iff)
  from sp2(2) obtain w ws where w0: "sp2 = w # ws" and wsne: "ws \<noteq> []"
    by (cases sp2; cases "tl sp2") auto
  from w0 sp2' have w: "isspace w" and ws: "\<forall>c\<in>set ws. isspace c" by simp_all
  let ?m = "CHR ''['' # n"
  from n(1) have m: "\<forall>c\<in>set ?m. c \<noteq> CHR '':''" by (auto simp: list_all_iff)
  from wsne ws m
  have name: "scan \<lparr>field_type = ty, field_name = Some [], value_template = None,
                in_brackets = False\<rparr> (ws @ ?m)
         = \<lparr>field_type = ty, field_name = Some (ws @ ?m), value_template = None,
            in_brackets = False\<rparr>"
    by (rule scan_after_blank)
  have ne: "?m \<noteq> []" by simp
  have h: "\<not> isspace (hd ?m)" by (simp add: isspace_def)
  from n(2) have l: "\<not> isspace (last ?m)" by simp
  have pre: "(([]::string) = [] \<and> ([]::string) = [])
        \<or> (lower [] = ''nullable'' \<and> ([]::string) \<noteq> [] \<and> (\<forall>c\<in>set ([]::string). isspace c))"
    by simp
  have e: "\<forall>c\<in>set ([]::string). isspace c" by simp
  from pre ty' known w ws name ne h l sp3' t(1,2,3) e e
  have "parse_field_mapping_line
          ([] @ ([] @ [] @ ty @ w # (ws @ ?m) @ CHR '':'' # sp3 @ tmpl) @ [])
        = Inr (([]::string) \<noteq> [], lower ty, ?m, tmpl)"
    by (rule line_parsed)
  with w0 have p: "parse_field_mapping_line (ty @ sp2 @ ''['' @ n @ '':'' @ sp3 @ tmpl)
         = Inr (False, lower ty, ''['' @ n, tmpl)"
    by simp
  have "c \<noteq> CHR '']''" if "c \<in> set sp3" for c
    using that sp3' isspace_not_punct by blast
  with n(1) t(4) have "CHR '']'' \<notin> set (n @ '':'' @ sp3 @ tmpl)"
    by (auto simp: list_all_iff)
  with p show ?thesis by blast
qed

theorem unmatched_bracket_accepted_witness:
  "list_all (\<lambda>c. \<not> isspace c) ''string'' \<and> TYPE_MAP (lower ''string'') \<noteq> None
   \<and> list_all isspace [CHR 0x20, CHR 0x20] \<and> 2 \<le> length [CHR 0x20, CHR 0x20]
   \<and> list_all (\<lambda>c. c \<noteq> CHR '':'' \<and> c \<noteq> CHR '']'') ''Name''
   \<and> list_all isspace [CHR 0x20]
   \<and> parse_field_mapping_line ''string  [Name: {x}'' = Inr (False, ''string'', ''[Name'', ''{x}'')
   \<and> CHR '']'' \<notin> set ''Name: {x}''"
proof -
  have h1: "list_all (\<lambda>c. \<not> isspace c) ''string''" by code_simp
  have h2: "TYPE_MAP (lower ''string'') \<noteq> None" by code_simp
  have h3: "list_all isspace [CHR 0x20, CHR 0x20]" by code_simp
  have h4: "2 \<le> length [CHR 0x20, CHR 0x20]" by simp
  have h5: "list_all (\<lambda>c. c \<noteq> CHR '':'' \<and> c \<noteq> CHR '']'') ''Name''" by simp
  have h6: "\<not> isspace (last (''['' @ ''Name''))" by code_simp
  have h7: "list_all isspace [CHR 0x20]" by code_simp
  have h8: "''{x}'' \<noteq> []" by simp
  have h9: "\<not> isspace (hd ''{x}'')" by code_simp
  have h10: "\<not> isspace (last ''{x}'')" by code_simp
  have h11: "CHR '']'' \<notin> set ''{x}''" by simp
  have l: "lower ''string'' = ''string''" by code_simp
  from unmatched_bracket_accepted [OF h1 h2 h3 h4 h5 h6 h7 h8 h9 h10 h11] h1 h2 h3 h4 h5 h7 l
  show ?thesis by simp
qed

text \<open>
  Inside brackets, too, an opening bracket met while the name is still empty is
  taken for the start of a bracketed name, and is dropped; and a closing bracket met
  there ends a bracketed name that is empty, after which the name can start again.
\<close>

lemma bracket_at_start_examples:
  "parse_field_mapping_line ''int [[a]: {x}'' = Inr (False, ''int'', ''a'', ''{x}'')"
  "parse_field_mapping_line ''int [][a]: {x}'' = Inr (False, ''int'', ''a'', ''{x}'')"
  "parse_field_mapping_line ''int []a: {x}'' = Inr (False, ''int'', ''a'', ''{x}'')"
  by code_simp+

end
